theory Spec2Isabelle
  imports Complex_Main
begin

section \<open>Values, arrays and errors\<close>

text \<open>
  A height is a JavaScript number. Arithmetic is taken over the reals: the rounding of
  doubles, and of a store into a \<^verbatim>\<open>Float32Array\<close>, is left out. A store of a
  number that is a float32 already (\<open>float32\<close> below) is exact in the code as it is
  here. A cell is
  \<open>Some v\<close> for the number \<open>v\<close> and \<open>None\<close> for \<^verbatim>\<open>NaN\<close>. The value
  \<^verbatim>\<open>undefined\<close>, which a read past the end of an array gives, is \<open>None\<close> as well:
  the code never tells the two apart (\<^verbatim>\<open>filterUndefined\<close> drops both, a typed array
  stores \<^verbatim>\<open>undefined\<close> as \<^verbatim>\<open>NaN\<close>, and adding either gives \<^verbatim>\<open>NaN\<close>).

  A heightfield is an array of rows, \<open>m ! x ! y\<close> being \<^verbatim>\<open>map[x][y]\<close>. Indexing a row
  that does not exist is a \<^verbatim>\<open>TypeError\<close>; \<^verbatim>\<open>new Array(size)\<close> with a size that is
  not an integer below \<open>2^32\<close> is a \<^verbatim>\<open>RangeError\<close>.

  The finite float32 numbers are the \<open>m * 2^e\<close> with \<open>m\<close> an integer of magnitude below
  \<open>2^24\<close> and \<open>e\<close> from \<open>-149\<close> to 104; \<open>k\<close> below is \<open>e + 149\<close>.
\<close>

type_synonym cell = "real option"
type_synonym heightfield = "cell list list"

definition float32 :: "real \<Rightarrow> bool" where
  "float32 v \<longleftrightarrow>
     (\<exists>k \<in> {0..253::nat}.
        let q = v * 2 ^ 149 / 2 ^ k in q = real_of_int \<lfloor>q\<rfloor> \<and> \<bar>q\<bar> < 2 ^ 24)"

datatype error = RangeError | TypeError

text \<open>Sequencing: a throw ends the computation.\<close>

definition bindE :: "error + 'a \<Rightarrow> ('a \<Rightarrow> error + 'b) \<Rightarrow> error + 'b" where
  "bindE r f = (case r of Inl e \<Rightarrow> Inl e | Inr v \<Rightarrow> f v)"

record constraints =
  c_top :: "cell list option"
  c_bottom :: "cell list option"
  c_left :: "cell list option"
  c_right :: "cell list option"

text \<open>\<^verbatim>\<open>a[i]\<close> on an array of numbers.\<close>

definition elem :: "cell list \<Rightarrow> int \<Rightarrow> cell" where
  "elem a i = (if 0 \<le> i \<and> i < int (length a) then a ! nat i else None)"

text \<open>\<^verbatim>\<open>m[x][y]\<close> read, and \<^verbatim>\<open>m[x][y] = v\<close>; a typed array ignores a store out of range.\<close>

definition rd :: "heightfield \<Rightarrow> int \<Rightarrow> int \<Rightarrow> error + cell" where
  "rd m x y = (if 0 \<le> x \<and> x < int (length m) then Inr (elem (m ! nat x) y) else Inl TypeError)"

definition wr :: "heightfield \<Rightarrow> int \<Rightarrow> int \<Rightarrow> cell \<Rightarrow> error + heightfield" where
  "wr m x y v =
     (if 0 \<le> x \<and> x < int (length m)
      then Inr (if 0 \<le> y \<and> y < int (length (m ! nat x))
                then m[nat x := (m ! nat x)[nat y := v]] else m)
      else Inl TypeError)"

text \<open>The arguments of a call are read from left to right; the first failing read throws.\<close>

fun reads :: "heightfield \<Rightarrow> (int \<times> int) list \<Rightarrow> error + cell list" where
  "reads m [] = Inr []"
| "reads m ((x, y) # ps) =
     bindE (rd m x y) (\<lambda>v. bindE (reads m ps) (\<lambda>vs. Inr (v # vs)))"

text \<open>A loop body run over the values of the loop variable, stopping at the first throw.\<close>

fun foldE :: "('a \<Rightarrow> 's \<Rightarrow> error + 's) \<Rightarrow> 'a list \<Rightarrow> 's \<Rightarrow> error + 's" where
  "foldE f [] s = Inr s"
| "foldE f (a # as) s = bindE (f a s) (foldE f as)"

text \<open>
  The values of \<open>i\<close> in \<^verbatim>\<open>for (i = x; i < stop; i += step)\<close>. Every loop of the code
  has a step of at least 1; the test \<open>0 < step\<close> makes the function total.
\<close>

function upto_by :: "int \<Rightarrow> int \<Rightarrow> int \<Rightarrow> int list" where
  "upto_by x stop step = (if x < stop \<and> 0 < step then x # upto_by (x + step) stop step else [])"
  by pat_completeness auto
termination
  by (relation "measure (\<lambda>(x, stop, step). nat (stop - x))") auto

declare upto_by.simps [simp del]

section \<open>The helpers of the terrain module\<close>

text \<open>\<^verbatim>\<open>rand(scale)\<close>, from the value \<open>u\<close> that \<^verbatim>\<open>Math.random()\<close> returned.\<close>

definition rand :: "real \<Rightarrow> real \<Rightarrow> real" where
  "rand u scale = u * scale * 2 - scale"

fun filterUndefined :: "cell list \<Rightarrow> real list" where
  "filterUndefined [] = []"
| "filterUndefined (None # a) = filterUndefined a"
| "filterUndefined (Some v # a) = v # filterUndefined a"

text \<open>\<open>0 / 0\<close> is \<^verbatim>\<open>NaN\<close>.\<close>

definition average :: "cell list \<Rightarrow> cell" where
  "average array =
     (let a = filterUndefined array
      in if a = [] then None else Some (foldl (+) 0 a / real (length a)))"

text \<open>\<^verbatim>\<open>r + c\<close> for a number \<open>r\<close>.\<close>

definition plus_cell :: "real \<Rightarrow> cell \<Rightarrow> cell" where
  "plus_cell r c = map_option (\<lambda>v. r + v) c"

text \<open>
  \<^verbatim>\<open>array.sort()\<close> on an \<^verbatim>\<open>Array\<close> has no comparator: the elements are ordered by
  their strings, compared code unit by code unit. The conversion of a number to its
  string belongs to the language, not to the repository, and is the parameter \<open>str\<close>.
\<close>

fun str_le :: "string \<Rightarrow> string \<Rightarrow> bool" where
  "str_le [] t = True"
| "str_le (a # s) [] = False"
| "str_le (a # s) (b # t) =
     ((of_char a :: nat) < of_char b \<or> ((of_char a :: nat) = of_char b \<and> str_le s t))"

fun insert_str :: "(real \<Rightarrow> string) \<Rightarrow> real \<Rightarrow> real list \<Rightarrow> real list" where
  "insert_str str v [] = [v]"
| "insert_str str v (w # ws) =
     (if str_le (str v) (str w) then v # w # ws else w # insert_str str v ws)"

fun sort_str :: "(real \<Rightarrow> string) \<Rightarrow> real list \<Rightarrow> real list" where
  "sort_str str [] = []"
| "sort_str str (v # vs) = insert_str str v (sort_str str vs)"

definition median :: "(real \<Rightarrow> string) \<Rightarrow> cell list \<Rightarrow> cell" where
  "median str array =
     (let a = sort_str str (filterUndefined array); n = length a
      in if n mod 2 = 1 then Some (a ! ((n - 1) div 2))
         else if n = 0 then None
         else Some ((a ! (n div 2 - 1) + a ! (n div 2)) / 2))"

text \<open>\<^verbatim>\<open>block.sort()\<close> on a \<^verbatim>\<open>Float32Array\<close>: by value, every \<^verbatim>\<open>NaN\<close> last.\<close>

definition f32sort :: "cell list \<Rightarrow> cell list" where
  "f32sort block =
     map Some (sort (filterUndefined block)) @ filter (\<lambda>c. c = None) block"

section \<open>Square and diamond steps\<close>

definition averageAt :: "heightfield \<Rightarrow> (int \<times> int) list \<Rightarrow> error + cell" where
  "averageAt m ps = bindE (reads m ps) (\<lambda>vs. Inr (average vs))"

definition square :: "heightfield \<Rightarrow> int \<Rightarrow> int \<Rightarrow> int \<Rightarrow> int \<Rightarrow> error + cell" where
  "square m mx x y sz =
     (if x < sz then averageAt m [(x + sz, y - sz), (x + sz, y + sz)]
      else if x > mx - sz then averageAt m [(x + sz, y - sz), (x + sz, y + sz)]
      else averageAt m [(x - sz, y - sz), (x + sz, y - sz), (x + sz, y + sz), (x - sz, y + sz)])"

definition diamond :: "heightfield \<Rightarrow> int \<Rightarrow> int \<Rightarrow> int \<Rightarrow> int \<Rightarrow> error + cell" where
  "diamond m mx x y sz =
     (if x < sz then averageAt m [(x, y - sz), (x + sz, y), (x, y + sz)]
      else if x > mx - sz then averageAt m [(x, y - sz), (x, y + sz), (x - sz, y)]
      else averageAt m [(x, y - sz), (x + sz, y), (x, y + sz), (x - sz, y)])"

text \<open>
  The generator's state is the map and the number of values taken from
  \<^verbatim>\<open>Math.random()\<close> so far; \<open>rnd k\<close> is the \<open>k\<close>-th value it returns.
\<close>

type_synonym gen_state = "heightfield \<times> nat"

definition squareStep ::
  "(nat \<Rightarrow> real) \<Rightarrow> int \<Rightarrow> real \<Rightarrow> int \<Rightarrow> int \<Rightarrow> int \<Rightarrow> gen_state \<Rightarrow> error + gen_state" where
  "squareStep rnd mx scl half y x s =
     bindE (square (fst s) mx x y half) (\<lambda>a.
     bindE (wr (fst s) x y (plus_cell (rand (rnd (snd s)) scl) a)) (\<lambda>m'.
     Inr (m', Suc (snd s))))"

definition storeFixed :: "int \<Rightarrow> int \<Rightarrow> cell \<Rightarrow> gen_state \<Rightarrow> error + gen_state" where
  "storeFixed x y v s = bindE (wr (fst s) x y v) (\<lambda>m'. Inr (m', snd s))"

definition diamondStep ::
  "(nat \<Rightarrow> real) \<Rightarrow> int \<Rightarrow> constraints \<Rightarrow> real \<Rightarrow> int \<Rightarrow> int \<Rightarrow> int \<Rightarrow> gen_state
     \<Rightarrow> error + gen_state" where
  "diamondStep rnd mx c scl half y x s =
     (if c_top c \<noteq> None \<and> x = 0 then storeFixed x y (elem (the (c_top c)) y) s
      else if c_bottom c \<noteq> None \<and> x = mx then storeFixed x y (elem (the (c_bottom c)) y) s
      else if c_left c \<noteq> None \<and> y = mx then storeFixed x y (elem (the (c_left c)) x) s
      else if c_right c \<noteq> None \<and> y = 0 then storeFixed x y (elem (the (c_right c)) x) s
      else bindE (diamond (fst s) mx x y half) (\<lambda>a.
           bindE (wr (fst s) x y (plus_cell (rand (rnd (snd s)) scl) a)) (\<lambda>m'.
           Inr (m', Suc (snd s)))))"

text \<open>
  \<^verbatim>\<open>divide(sz)\<close>. \<open>half < 1\<close> is \<open>sz < 2\<close>. Every \<open>sz\<close> reached from
  \<^verbatim>\<open>divide(max)\<close> is a power of two, so \<open>sz / 2\<close> is exact; for an odd \<open>sz\<close> above 1
  the first index used would be a fraction, which names no row.
\<close>

function divide ::
  "(nat \<Rightarrow> real) \<Rightarrow> real \<Rightarrow> int \<Rightarrow> constraints \<Rightarrow> int \<Rightarrow> gen_state \<Rightarrow> error + gen_state" where
  "divide rnd roughness mx c sz s =
     (if sz < 2 then Inr s
      else if odd sz then Inl TypeError
      else
        bindE (foldE (\<lambda>y. foldE (squareStep rnd mx (roughness * real_of_int sz) (sz div 2) y)
                              (upto_by (sz div 2) mx sz))
                 (upto_by (sz div 2) mx sz) s) (\<lambda>s1.
        bindE (foldE (\<lambda>y. foldE (diamondStep rnd mx c (roughness * real_of_int sz) (sz div 2) y)
                              (upto_by ((y + sz div 2) mod sz) (mx + 1) sz))
                 (upto_by 0 (mx + 1) (sz div 2)) s1) (\<lambda>s2.
        divide rnd roughness mx c (sz div 2) s2)))"
  by pat_completeness auto
termination
  by (relation "measure (\<lambda>(rnd, roughness, mx, c, sz, s). nat sz)") auto

declare divide.simps [simp del]

section \<open>The median filter\<close>

text \<open>One pass of the innermost loops: the nine cells into \<open>block\<close>, sorted, the fifth kept.\<close>

definition coreStep :: "heightfield \<Rightarrow> int \<Rightarrow> int \<Rightarrow> heightfield \<Rightarrow> error + heightfield" where
  "coreStep src y x dst =
     bindE (reads src [(y, x), (y, x + 1), (y, x + 2),
                       (y + 1, x), (y + 1, x + 1), (y + 1, x + 2),
                       (y + 2, x), (y + 2, x + 1), (y + 2, x + 2)])
       (\<lambda>block. wr dst (y + 1) (x + 1) (f32sort block ! 4))"

text \<open>\<^verbatim>\<open>dst[x][y] = median(src[..][..], ...)\<close>, the cells read being listed in \<open>ps\<close>.\<close>

definition medianStep ::
  "(real \<Rightarrow> string) \<Rightarrow> heightfield \<Rightarrow> (int \<times> int) \<times> (int \<times> int) list \<Rightarrow> heightfield
     \<Rightarrow> error + heightfield" where
  "medianStep str src t dst =
     bindE (reads src (snd t)) (\<lambda>vs. wr dst (fst (fst t)) (snd (fst t)) (median str vs))"

definition median3Filter :: "(real \<Rightarrow> string) \<Rightarrow> heightfield \<Rightarrow> error + heightfield" where
  "median3Filter str src =
     (let N = int (length src); n = N - 1 in
      bindE (foldE (\<lambda>y. foldE (coreStep src y) (upto_by 0 (N - 2) 1)) (upto_by 0 (N - 2) 1)
               (replicate (length src) (replicate (length src) (Some 0))))
        (\<lambda>d1.
      bindE (foldE (medianStep str src)
               [((0, 0), [(0, 0), (1, 0), (0, 1), (1, 1)]),
                ((n, 0), [(n, 0), (n, 1), (n - 1, 0), (n - 1, 1)]),
                ((0, n), [(0, n), (1, n), (0, n - 1), (1, n - 1)]),
                ((n, n), [(n, n), (n, n - 1), (n - 1, n), (n - 1, n - 1)])] d1)
        (\<lambda>d2.
      bindE (foldE (\<lambda>y. foldE (medianStep str src)
                     [((y, 0), [(y - 1, 0), (y, 0), (y + 1, 0), (y - 1, 1), (y, 1), (y + 1, 1)]),
                      ((y, n), [(y - 1, n), (y, n), (y + 1, n),
                                (y - 1, n - 1), (y, n - 1), (y + 1, n - 1)])])
               (upto_by 1 n 1) d2)
        (\<lambda>d3.
      foldE (\<lambda>x. foldE (medianStep str src)
              [((0, x), [(0, x - 1), (0, x), (0, x + 1), (1, x - 1), (1, x), (1, x + 1)]),
               ((n, x), [(n, x - 1), (n, x), (n, x + 1),
                         (n - 1, x - 1), (n - 1, x), (n - 1, x + 1)])])
        (upto_by 1 n 1) d3))))"

section \<open>generateTerrain\<close>

text \<open>
  One corner: \<^verbatim>\<open>map[x][y] = a ? a[i] : b ? b[j] : rand(scale)\<close>. An array is truthy,
  \<^verbatim>\<open>null\<close> is not.
\<close>

definition seedCell ::
  "(nat \<Rightarrow> real) \<Rightarrow> real \<Rightarrow> int \<Rightarrow> int \<Rightarrow> cell list option \<Rightarrow> int \<Rightarrow> cell list option \<Rightarrow> int
     \<Rightarrow> gen_state \<Rightarrow> error + gen_state" where
  "seedCell rnd scale x y a i b j s =
     (if a \<noteq> None then storeFixed x y (elem (the a) i) s
      else if b \<noteq> None then storeFixed x y (elem (the b) j) s
      else bindE (wr (fst s) x y (Some (rand (rnd (snd s)) scale)))
             (\<lambda>m'. Inr (m', Suc (snd s))))"

definition seedCorners ::
  "(nat \<Rightarrow> real) \<Rightarrow> real \<Rightarrow> int \<Rightarrow> constraints \<Rightarrow> gen_state \<Rightarrow> error + gen_state" where
  "seedCorners rnd scale mx c s =
     bindE (seedCell rnd scale 0 0 (c_top c) 0 (c_right c) 0 s) (\<lambda>s1.
     bindE (seedCell rnd scale mx 0 (c_bottom c) 0 (c_right c) mx s1) (\<lambda>s2.
     bindE (seedCell rnd scale mx mx (c_bottom c) mx (c_left c) mx s2) (\<lambda>s3.
     seedCell rnd scale 0 mx (c_top c) mx (c_left c) 0 s3)))"

text \<open>The four closing loops, each run only for a constraint that was given.\<close>

definition forceEdges :: "constraints \<Rightarrow> int \<Rightarrow> int \<Rightarrow> heightfield \<Rightarrow> error + heightfield" where
  "forceEdges c sizeN mx smoothed =
     bindE (if c_top c \<noteq> None
            then foldE (\<lambda>y m. wr m 0 y (elem (the (c_top c)) y)) (upto_by 0 sizeN 1) smoothed
            else Inr smoothed) (\<lambda>m1.
     bindE (if c_bottom c \<noteq> None
            then foldE (\<lambda>y m. wr m mx y (elem (the (c_bottom c)) y)) (upto_by 0 sizeN 1) m1
            else Inr m1) (\<lambda>m2.
     bindE (if c_left c \<noteq> None
            then foldE (\<lambda>x m. wr m x mx (elem (the (c_left c)) x)) (upto_by 0 sizeN 1) m2
            else Inr m2) (\<lambda>m3.
     if c_right c \<noteq> None
     then foldE (\<lambda>x m. wr m x 0 (elem (the (c_right c)) x)) (upto_by 0 sizeN 1) m3
     else Inr m3)))"

text \<open>
  \<^verbatim>\<open>Math.pow(2, detail) + 1\<close> for an integer \<open>detail\<close>, as the double it is. For
  \<open>detail \<le> -53\<close> it is 1: \<open>2^detail\<close> is at most half the distance from 1 to the next
  double, and the tie goes to 1. For \<open>detail\<close> from \<open>-52\<close> to \<open>-1\<close> it is the fraction
  \<open>1 + 2^detail\<close>, and for \<open>detail\<close> from 0 to 52 the integer \<open>2^detail + 1\<close>. Above that
  the double is another number than \<open>2^detail + 1\<close>, or \<^verbatim>\<open>Infinity\<close>, but like it
  greater than \<open>2^32\<close>, which is all that is used of it.
\<close>

definition sizeOf :: "int \<Rightarrow> real" where
  "sizeOf detail =
     (if detail \<le> - 53 then 1
      else if detail < 0 then 1 + 1 / 2 ^ nat (- detail)
      else 2 ^ nat detail + 1)"

text \<open>
  \<^verbatim>\<open>new Array(len)\<close> throws a \<^verbatim>\<open>RangeError\<close> unless \<open>len\<close> is an integer from 0 to
  \<open>2^32 - 1\<close>. Memory is not modelled: an array of an allowed length, and each
  \<^verbatim>\<open>Float32Array\<close> of that length, is taken to be allocated.
\<close>

definition newArray :: "real \<Rightarrow> error + int" where
  "newArray len =
     (if len = real_of_int \<lfloor>len\<rfloor> \<and> 0 \<le> len \<and> len \<le> 2 ^ 32 - 1 then Inr \<lfloor>len\<rfloor>
      else Inl RangeError)"

text \<open>
  \<^verbatim>\<open>generateTerrain(detail, roughness, {top, bottom, left, right})\<close> for an integer
  \<open>detail\<close>, started when \<open>n0\<close> random values have been taken. It returns the heightfield
  and the number of random values taken.
\<close>

definition generateTerrain ::
  "(real \<Rightarrow> string) \<Rightarrow> (nat \<Rightarrow> real) \<Rightarrow> int \<Rightarrow> real \<Rightarrow> constraints \<Rightarrow> nat \<Rightarrow> error + gen_state" where
  "generateTerrain str rnd detail roughness c n0 =
     bindE (newArray (sizeOf detail)) (\<lambda>sizeN.
       (let mx = sizeN - 1; scale = roughness * real_of_int sizeN / 2
        in bindE (seedCorners rnd scale mx c
                    (replicate (nat sizeN) (replicate (nat sizeN) (Some 0)), n0)) (\<lambda>s0.
           bindE (divide rnd roughness mx c mx s0) (\<lambda>s1.
           bindE (median3Filter str (fst s1)) (\<lambda>smoothed.
           bindE (forceEdges c sizeN mx smoothed) (\<lambda>res. Inr (res, snd s1)))))))"

text \<open>
  The four extractions. \<^verbatim>\<open>terrain[0]\<close> of an empty array is \<^verbatim>\<open>undefined\<close>, which as
  a constraint counts as not given.
\<close>

definition extractTop :: "heightfield \<Rightarrow> cell list option" where
  "extractTop terrain = (case terrain of [] \<Rightarrow> None | r # rs \<Rightarrow> Some r)"

definition extractBottom :: "heightfield \<Rightarrow> cell list option" where
  "extractBottom terrain = (if terrain = [] then None else Some (last terrain))"

definition extractLeft :: "heightfield \<Rightarrow> cell list" where
  "extractLeft terrain = map (\<lambda>row. elem row (int (length row) - 1)) terrain"

definition extractRight :: "heightfield \<Rightarrow> cell list" where
  "extractRight terrain = map (\<lambda>row. elem row 0) terrain"

section \<open>The chunk store\<close>

text \<open>
  \<^verbatim>\<open>chunkHeights\<close> is keyed by the string \<^verbatim>\<open>`${x},${y}`\<close>, which names one pair of
  integers; the key is the pair. \<^verbatim>\<open>addTerrainMesh\<close> hands a mesh placed at the chunk's
  coordinates to the scene, of which only the order of the meshes is kept. \<open>drawn\<close> is
  the number of values taken from \<^verbatim>\<open>Math.random()\<close>.
\<close>

record world =
  chunkHeights :: "int \<times> int \<rightharpoonup> heightfield"
  meshes :: "(int \<times> int) list"
  drawn :: nat

definition neighborDirections :: "(int \<times> int) list" where
  "neighborDirections =
     [(0, 0), (1, 0), (-1, 0),
      (0, 1), (0, -1),
      (1, 1), (-1, -1),
      (1, -1), (-1, 1)]"

definition addTerrainMesh :: "int \<Rightarrow> int \<Rightarrow> world \<Rightarrow> world" where
  "addTerrainMesh x y w =
     (case chunkHeights w (x, y) of
        None \<Rightarrow> w
      | Some terrainData \<Rightarrow> w\<lparr>meshes := meshes w @ [(x, y)]\<rparr>)"

text \<open>The constraints a new chunk at \<open>(x, y)\<close> takes from the chunks around it.\<close>

definition neighborEdges :: "world \<Rightarrow> int \<Rightarrow> int \<Rightarrow> constraints" where
  "neighborEdges w x y =
     \<lparr>c_top = Option.bind (chunkHeights w (x, y + 1)) extractBottom,
      c_bottom = Option.bind (chunkHeights w (x, y - 1)) extractTop,
      c_left = map_option extractRight (chunkHeights w (x - 1, y)),
      c_right = map_option extractLeft (chunkHeights w (x + 1, y))\<rparr>"

definition addTerrainChunk ::
  "(real \<Rightarrow> string) \<Rightarrow> (nat \<Rightarrow> real) \<Rightarrow> int \<Rightarrow> int \<Rightarrow> world \<Rightarrow> error + world" where
  "addTerrainChunk str rnd x y w =
     (if chunkHeights w (x, y) \<noteq> None then Inr w
      else bindE (generateTerrain str rnd 5 5 (neighborEdges w x y) (drawn w))
             (\<lambda>r. Inr (addTerrainMesh x y
                          (w\<lparr>chunkHeights := (chunkHeights w)((x, y) \<mapsto> fst r),
                              drawn := snd r\<rparr>))))"

definition generateNeighboringChunks ::
  "(real \<Rightarrow> string) \<Rightarrow> (nat \<Rightarrow> real) \<Rightarrow> int \<Rightarrow> int \<Rightarrow> world \<Rightarrow> error + world" where
  "generateNeighboringChunks str rnd x y w =
     bindE (addTerrainChunk str rnd x y w)
       (foldE (\<lambda>d. addTerrainChunk str rnd (x + fst d) (y + snd d)) neighborDirections)"

text \<open>
  The stores the program can be in: \<^verbatim>\<open>chunkHeights\<close> starts empty and is written by
  \<^verbatim>\<open>addTerrainChunk\<close> alone.
\<close>

inductive reachable :: "(real \<Rightarrow> string) \<Rightarrow> (nat \<Rightarrow> real) \<Rightarrow> world \<Rightarrow> bool"
  for str :: "real \<Rightarrow> string" and rnd :: "nat \<Rightarrow> real" where
  start: "reachable str rnd \<lparr>chunkHeights = Map.empty, meshes = [], drawn = n\<rparr>"
| step: "reachable str rnd w \<Longrightarrow> addTerrainChunk str rnd x y w = Inr w' \<Longrightarrow> reachable str rnd w'"

section \<open>Numbers as strings\<close>

text \<open>
  \<^verbatim>\<open>String(v)\<close> for an integer \<open>v\<close> of magnitude below \<open>10^21\<close>: its decimal digits,
  after a minus sign when it is negative. For a fraction, and from \<open>10^21\<close> on, where
  \<^verbatim>\<open>String(v)\<close> has a decimal point or an exponent, it is not that string: it is
  applied to integers below \<open>10^21\<close> only.
\<close>

function digits :: "nat \<Rightarrow> string" where
  "digits n = (if n < 10 then [char_of (48 + n)] else digits (n div 10) @ [char_of (48 + n mod 10)])"
  by pat_completeness auto
termination
  by (relation "measure id") auto

declare digits.simps [simp del]

definition numberToString :: "real \<Rightarrow> string" where
  "numberToString v = (if v < 0 then CHR ''-'' # digits (nat \<lfloor>- v\<rfloor>) else digits (nat \<lfloor>v\<rfloor>))"

text \<open>The median of the specification: the values in numeric order.\<close>

definition numeric_median :: "real list \<Rightarrow> real" where
  "numeric_median vs =
     (let a = sort vs; n = length a
      in if n mod 2 = 1 then a ! ((n - 1) div 2) else (a ! (n div 2 - 1) + a ! (n div 2)) / 2)"

section \<open>Predicates used in the proofs\<close>

text \<open>An \<open>N\<close> by \<open>N\<close> array whose cells all satisfy \<open>Q\<close>.\<close>

definition grid :: "(cell \<Rightarrow> bool) \<Rightarrow> int \<Rightarrow> heightfield \<Rightarrow> bool" where
  "grid Q N m \<longleftrightarrow> int (length m) = N \<and> (\<forall>r \<in> set m. int (length r) = N \<and> (\<forall>c \<in> set r. Q c))"

definition cellAt :: "heightfield \<Rightarrow> int \<times> int \<Rightarrow> cell" where
  "cellAt m p = elem (m ! nat (fst p)) (snd p)"

text \<open>
  \<open>Q\<close> holds of every value the generator computes from cells that satisfy it: the
  initial zero, a random seed, an average plus a random offset, and both medians.
\<close>

definition value_ok :: "(real \<Rightarrow> string) \<Rightarrow> (nat \<Rightarrow> real) \<Rightarrow> (cell \<Rightarrow> bool) \<Rightarrow> bool" where
  "value_ok str rnd Q \<longleftrightarrow>
     Q (Some 0) \<and>
     (\<forall>n scl. Q (Some (rand (rnd n) scl))) \<and>
     (\<forall>cs n scl. (\<forall>c \<in> set cs. c \<noteq> None \<longrightarrow> Q c) \<longrightarrow> (\<exists>c \<in> set cs. Q c)
        \<longrightarrow> Q (plus_cell (rand (rnd n) scl) (average cs))) \<and>
     (\<forall>cs. cs \<noteq> [] \<longrightarrow> (\<forall>c \<in> set cs. Q c) \<longrightarrow> Q (median str cs)) \<and>
     (\<forall>b. length b = 9 \<longrightarrow> (\<forall>c \<in> set b. Q c) \<longrightarrow> Q (f32sort b ! 4))"

text \<open>The entries a constraint array can hand to an \<open>N\<close> by \<open>N\<close> map satisfy \<open>Q\<close>.\<close>

definition edge_ok :: "(cell \<Rightarrow> bool) \<Rightarrow> int \<Rightarrow> cell list option \<Rightarrow> bool" where
  "edge_ok Q N e \<longleftrightarrow> (\<forall>a i. e = Some a \<longrightarrow> 0 \<le> i \<longrightarrow> i < N \<longrightarrow> Q (elem a i))"

definition cons_ok :: "(cell \<Rightarrow> bool) \<Rightarrow> int \<Rightarrow> constraints \<Rightarrow> bool" where
  "cons_ok Q N c \<longleftrightarrow>
     edge_ok Q N (c_top c) \<and> edge_ok Q N (c_bottom c) \<and>
     edge_ok Q N (c_left c) \<and> edge_ok Q N (c_right c)"

text \<open>
  The cell at \<open>q\<close> once the closing loops have run over the smoothed map \<open>sm\<close>: the
  last loop that writes the cell decides.
\<close>

definition forced :: "constraints \<Rightarrow> int \<Rightarrow> heightfield \<Rightarrow> int \<times> int \<Rightarrow> cell" where
  "forced c mx sm q =
     (if c_right c \<noteq> None \<and> snd q = 0 then elem (the (c_right c)) (fst q)
      else if c_left c \<noteq> None \<and> snd q = mx then elem (the (c_left c)) (fst q)
      else if c_bottom c \<noteq> None \<and> fst q = mx then elem (the (c_bottom c)) (snd q)
      else if c_top c \<noteq> None \<and> fst q = 0 then elem (the (c_top c)) (snd q)
      else cellAt sm q)"

definition in_range :: "int \<Rightarrow> int \<times> int \<Rightarrow> bool" where
  "in_range N q \<longleftrightarrow> 0 \<le> fst q \<and> fst q < N \<and> 0 \<le> snd q \<and> snd q < N"

text \<open>A number that is at most zero, and a number below zero.\<close>

definition nonpos :: "cell \<Rightarrow> bool" where
  "nonpos c = (case c of None \<Rightarrow> False | Some v \<Rightarrow> v \<le> 0)"

definition neg :: "cell \<Rightarrow> bool" where
  "neg c = (case c of None \<Rightarrow> False | Some v \<Rightarrow> v < 0)"

text \<open>
  A state of the generator whose map is an \<open>N\<close> by \<open>N\<close> array of cells that satisfy
  \<open>Q\<close>, whose cell \<open>(0, 0)\<close> is \<open>v0\<close>, and which has taken at least one random value.
\<close>

definition kept :: "(cell \<Rightarrow> bool) \<Rightarrow> int \<Rightarrow> cell \<Rightarrow> gen_state \<Rightarrow> bool" where
  "kept Q N v0 s \<longleftrightarrow> grid Q N (fst s) \<and> cellAt (fst s) (0, 0) = v0 \<and> 1 \<le> snd s"

section \<open>Inputs and predicates of the claims\<close>

text \<open>No constraint given.\<close>

definition free :: constraints where
  "free = \<lparr>c_top = None, c_bottom = None, c_left = None, c_right = None\<rparr>"

text \<open>Every given constraint array has \<open>N\<close> entries.\<close>

definition edge_len :: "int \<Rightarrow> cell list option \<Rightarrow> bool" where
  "edge_len N e \<longleftrightarrow> (\<forall>a. e = Some a \<longrightarrow> int (length a) = N)"

definition lengths_ok :: "int \<Rightarrow> constraints \<Rightarrow> bool" where
  "lengths_ok N c \<longleftrightarrow>
     edge_len N (c_top c) \<and> edge_len N (c_bottom c) \<and> edge_len N (c_left c) \<and> edge_len N (c_right c)"

text \<open>
  A top or bottom constraint \<open>e\<close> as it is returned: its two ends overwritten by entry
  \<open>i\<close> of the left and of the right constraint, where those are given.
\<close>

definition corner_fix :: "cell list \<Rightarrow> constraints \<Rightarrow> nat \<Rightarrow> cell list" where
  "corner_fix e c i =
     (case c_right c of
        None \<Rightarrow> (case c_left c of None \<Rightarrow> e | Some l \<Rightarrow> e[length e - 1 := l ! i])
      | Some r \<Rightarrow> (case c_left c of None \<Rightarrow> e | Some l \<Rightarrow> e[length e - 1 := l ! i])[0 := r ! i])"

text \<open>Every number in a given constraint array is a float32.\<close>

definition edge_float32 :: "cell list option \<Rightarrow> bool" where
  "edge_float32 e =
     (case e of None \<Rightarrow> True
      | Some a \<Rightarrow> list_all (\<lambda>c. case c of None \<Rightarrow> True | Some v \<Rightarrow> float32 v) a)"

definition float32_ok :: "constraints \<Rightarrow> bool" where
  "float32_ok c \<longleftrightarrow>
     edge_float32 (c_top c) \<and> edge_float32 (c_bottom c) \<and>
     edge_float32 (c_left c) \<and> edge_float32 (c_right c)"

text \<open>No given constraint array holds a \<^verbatim>\<open>NaN\<close>.\<close>

definition edge_numbers :: "cell list option \<Rightarrow> bool" where
  "edge_numbers e \<longleftrightarrow> (\<forall>a. e = Some a \<longrightarrow> None \<notin> set a)"

definition numbers_ok :: "constraints \<Rightarrow> bool" where
  "numbers_ok c \<longleftrightarrow>
     edge_numbers (c_top c) \<and> edge_numbers (c_bottom c) \<and>
     edge_numbers (c_left c) \<and> edge_numbers (c_right c)"

text \<open>
  The value \<open>v\<close> of a seeded corner: entry \<open>i\<close> of \<open>a\<close> when \<open>a\<close> is given, else entry
  \<open>j\<close> of \<open>b\<close> when \<open>b\<close> is given, else \<^verbatim>\<open>rand(scale)\<close> from one of the next four
  random values.
\<close>

definition seeded ::
  "(nat \<Rightarrow> real) \<Rightarrow> real \<Rightarrow> nat \<Rightarrow> cell list option \<Rightarrow> int \<Rightarrow> cell list option \<Rightarrow> int \<Rightarrow> cell \<Rightarrow> bool" where
  "seeded rnd scale n a i b j v \<longleftrightarrow>
     (if a \<noteq> None then v = elem (the a) i
      else if b \<noteq> None then v = elem (the b) j
      else \<exists>k. n \<le> k \<and> k < n + 4 \<and> v = Some (rand (rnd k) scale))"

text \<open>Constraints used as examples. The first two disagree on a corner.\<close>

definition corner_clash :: constraints where
  "corner_clash = free\<lparr>c_top := Some [Some 3, Some 1, Some 9], c_right := Some [Some 5, Some 2, Some 0]\<rparr>"

definition bottom_right :: constraints where
  "bottom_right = free\<lparr>c_bottom := Some [Some 7, Some 0, Some 0], c_right := Some [Some 0, Some 0, Some 9]\<rparr>"

definition short_top :: constraints where
  "short_top = free\<lparr>c_top := Some [Some 0]\<rparr>"

definition left_only :: constraints where
  "left_only = free\<lparr>c_left := Some [Some 21, Some 0, Some 15]\<rparr>"

text \<open>
  What \<^verbatim>\<open>seedCell\<close> stores when \<open>n\<close> random values have been taken, and the number of
  random values taken once it has run.
\<close>

definition seedValue ::
  "(nat \<Rightarrow> real) \<Rightarrow> real \<Rightarrow> cell list option \<Rightarrow> int \<Rightarrow> cell list option \<Rightarrow> int \<Rightarrow> nat \<Rightarrow> cell" where
  "seedValue rnd scale a i b j n =
     (if a \<noteq> None then elem (the a) i
      else if b \<noteq> None then elem (the b) j
      else Some (rand (rnd n) scale))"

definition seedCount :: "cell list option \<Rightarrow> cell list option \<Rightarrow> nat \<Rightarrow> nat" where
  "seedCount a b n = (if a = None \<and> b = None then Suc n else n)"

text \<open>The coordinates of \<open>ks\<close> that are not in \<open>D\<close>, each once, in the order of \<open>ks\<close>.\<close>

fun fresh :: "(int \<times> int) set \<Rightarrow> (int \<times> int) list \<Rightarrow> (int \<times> int) list" where
  "fresh D [] = []"
| "fresh D (k # ks) = (if k \<in> D then fresh D ks else k # fresh (insert k D) ks)"

text \<open>Every stored chunk is a 33 by 33 array.\<close>

definition chunks_ok :: "world \<Rightarrow> bool" where
  "chunks_ok w \<longleftrightarrow> (\<forall>k h. chunkHeights w k = Some h \<longrightarrow> grid (\<lambda>c. True) 33 h)"

text \<open>
  The seams of the store: the last column of the chunk at \<open>(x + 1, y)\<close> is the first
  column of the chunk at \<open>(x, y)\<close>, and the first row of the chunk at \<open>(x, y)\<close> is the
  last row of the chunk at \<open>(x, y + 1)\<close> between the corners.
\<close>

definition seams_ok :: "world \<Rightarrow> bool" where
  "seams_ok w \<longleftrightarrow>
     (\<forall>x y a. chunkHeights w (x, y) = Some a \<longrightarrow>
        (\<forall>b. chunkHeights w (x + 1, y) = Some b \<longrightarrow> extractLeft b = extractRight a) \<and>
        (\<forall>t. chunkHeights w (x, y + 1) = Some t \<longrightarrow>
           (\<forall>j. 0 < j \<and> j < 32 \<longrightarrow> cellAt a (0, j) = cellAt t (32, j))))"

text \<open>A chunk whose first column is 0 and whose last column is 1, alone in a store.\<close>

definition chunkA :: heightfield where
  "chunkA = replicate 33 (replicate 32 (Some 0) @ [Some 1])"

definition storeA :: world where
  "storeA = \<lparr>chunkHeights = [(0, 0) \<mapsto> chunkA], meshes = [(0, 0)], drawn = 0\<rparr>"

definition emptyStore :: world where
  "emptyStore = \<lparr>chunkHeights = Map.empty, meshes = [], drawn = 0\<rparr>"

text \<open>
  Values of \<^verbatim>\<open>Math.random()\<close>: the first is 0, every later one is \<open>1/2\<close>. The first
  \<^verbatim>\<open>rand(scale)\<close> is then \<open>- scale\<close> and every later one is 0.
\<close>

definition lowFirst :: "nat \<Rightarrow> real" where
  "lowFirst k = (if k = 0 then 0 else 1 / 2)"

text \<open>
  Three requests on the empty store: the chunk at \<open>(0, 0)\<close>, the chunk at \<open>(-2, 0)\<close>,
  then the chunk between them.
\<close>

definition threeChunks :: "(real \<Rightarrow> string) \<Rightarrow> error + world" where
  "threeChunks str =
     bindE (addTerrainChunk str lowFirst 0 0 emptyStore) (\<lambda>w1.
     bindE (addTerrainChunk str lowFirst (- 2) 0 w1) (\<lambda>w2.
     addTerrainChunk str lowFirst (- 1) 0 w2))"
section \<open>Sequencing and loops\<close>

lemma bindE_Inr [simp]: "bindE (Inr v) f = f v"
  by (simp add: bindE_def)

lemma bindE_Inl [simp]: "bindE (Inl e) f = Inl e"
  by (simp add: bindE_def)

lemma bindE_weak_cong [cong]: "r = r' \<Longrightarrow> bindE r f = bindE r' f"
  by simp

lemma bindE_eq_Inr: "bindE r f = Inr b \<longleftrightarrow> (\<exists>a. r = Inr a \<and> f a = Inr b)"
  by (cases r) simp_all

lemma foldE_inv:
  assumes "I s"
    and "\<And>a t. a \<in> set as \<Longrightarrow> I t \<Longrightarrow> \<exists>t'. f a t = Inr t' \<and> I t'"
  shows "\<exists>s'. foldE f as s = Inr s' \<and> I s'"
  using assms
proof (induction as arbitrary: s)
  case Nil
  then show ?case by simp
next
  case (Cons a as)
  from Cons.prems obtain t where t: "f a s = Inr t" "I t"
    by (meson list.set_intros(1))
  have "\<exists>s'. foldE f as t = Inr s' \<and> I s'"
    by (rule Cons.IH [OF t(2)]) (simp add: Cons.prems(2))
  with t show ?case by simp
qed

lemma upto_by_set:
  "x \<in> set (upto_by a b st) \<Longrightarrow> a \<le> x \<and> x < b \<and> 0 < st \<and> st dvd (x - a)"
proof (induction a b st rule: upto_by.induct)
  case (1 a b st)
  show ?case
  proof (cases "a < b \<and> 0 < st")
    case True
    with "1.prems" have "x = a \<or> x \<in> set (upto_by (a + st) b st)"
      by (subst (asm) upto_by.simps) simp
    then show ?thesis
    proof
      assume "x = a"
      with True show ?thesis by simp
    next
      assume "x \<in> set (upto_by (a + st) b st)"
      from "1.IH" [OF True this] have h: "a + st \<le> x" "x < b" "0 < st" "st dvd (x - (a + st))"
        by simp_all
      have "x - a = (x - (a + st)) + st" by simp
      with h(4) have "st dvd (x - a)" by (metis dvd_add dvd_refl)
      with h True show ?thesis by simp
    qed
  next
    case False
    with "1.prems" show ?thesis
      by (subst (asm) upto_by.simps) simp
  qed
qed

lemma upto_by_1: "upto_by a b 1 = [a..b - 1]"
proof (induction a b "1::int" rule: upto_by.induct)
  case (1 a b)
  show ?case
  proof (cases "a < b")
    case True
    then have "upto_by a b 1 = a # upto_by (a + 1) b 1"
      by (subst upto_by.simps) simp
    also have "upto_by (a + 1) b 1 = [a + 1..b - 1]"
      using "1.hyps" True by simp
    also have "a # [a + 1..b - 1] = [a..b - 1]"
      using True by (simp add: upto_rec1)
    finally show ?thesis .
  next
    case False
    then show ?thesis
      by (subst upto_by.simps) simp
  qed
qed

section \<open>Grids\<close>

lemma grid_replicate: "0 \<le> N \<Longrightarrow> Q v \<Longrightarrow> grid Q N (replicate (nat N) (replicate (nat N) v))"
  by (auto simp: grid_def)

lemma grid_weaken: "grid Q N m \<Longrightarrow> (\<And>c. Q c \<Longrightarrow> Q' c) \<Longrightarrow> grid Q' N m"
  by (auto simp: grid_def)

lemma grid_row:
  "grid Q N m \<Longrightarrow> 0 \<le> x \<Longrightarrow> x < N \<Longrightarrow> m ! nat x \<in> set m"
  by (simp add: grid_def nat_less_iff)

lemma grid_row_length:
  "grid Q N m \<Longrightarrow> 0 \<le> x \<Longrightarrow> x < N \<Longrightarrow> int (length (m ! nat x)) = N"
  using grid_row [of Q N m x] by (simp add: grid_def)

lemma grid_cell:
  assumes "grid Q N m" "0 \<le> x" "x < N" "0 \<le> y" "y < N"
  shows "Q (m ! nat x ! nat y)"
proof -
  have r: "m ! nat x \<in> set m" by (rule grid_row [OF assms(1-3)])
  have "nat y < length (m ! nat x)"
    using grid_row_length [OF assms(1-3)] assms(4,5) by (simp add: nat_less_iff)
  then have "m ! nat x ! nat y \<in> set (m ! nat x)" by simp
  with r assms(1) show ?thesis by (auto simp: grid_def)
qed

lemma wr_grid:
  assumes "grid Q N m" "0 \<le> x" "x < N" "0 \<le> y \<and> y < N \<longrightarrow> Q v"
  shows "\<exists>m'. wr m x y v = Inr m' \<and> grid Q N m'"
proof -
  from assms(1,2,3) have len: "int (length m) = N" and rl: "int (length (m ! nat x)) = N"
    by (auto simp: grid_def grid_row_length)
  show ?thesis
  proof (cases "0 \<le> y \<and> y < N")
    case True
    with assms(4) have qv: "Q v" by simp
    have "grid Q N (m[nat x := (m ! nat x)[nat y := v]])"
      unfolding grid_def
    proof (intro conjI ballI)
      show "int (length (m[nat x := (m ! nat x)[nat y := v]])) = N" using len by simp
    next
      fix r assume "r \<in> set (m[nat x := (m ! nat x)[nat y := v]])"
      then have "r \<in> set m \<or> r = (m ! nat x)[nat y := v]"
        by (meson insertE set_update_subset_insert subsetD)
      then show "int (length r) = N" using assms(1) rl by (auto simp: grid_def)
    next
      fix r c assume r: "r \<in> set (m[nat x := (m ! nat x)[nat y := v]])" and c: "c \<in> set r"
      from r have "r \<in> set m \<or> r = (m ! nat x)[nat y := v]"
        by (meson insertE set_update_subset_insert subsetD)
      then show "Q c"
      proof
        assume "r \<in> set m" with c assms(1) show ?thesis by (auto simp: grid_def)
      next
        assume "r = (m ! nat x)[nat y := v]"
        with c have "c = v \<or> c \<in> set (m ! nat x)"
          by (meson insertE set_update_subset_insert subsetD)
        moreover have "m ! nat x \<in> set m" using assms(2,3) len by (simp add: nat_less_iff)
        ultimately show ?thesis using qv assms(1) by (auto simp: grid_def)
      qed
    qed
    with True assms(2,3) len rl show ?thesis by (simp add: wr_def)
  next
    case False
    with assms(1,2,3) len rl show ?thesis by (auto simp: wr_def)
  qed
qed

lemma reads_rows:
  "\<forall>p \<in> set ps. 0 \<le> fst p \<and> fst p < int (length m) \<Longrightarrow> reads m ps = Inr (map (cellAt m) ps)"
  by (induction ps) (auto simp: rd_def cellAt_def)

lemma cellAt_grid:
  assumes "grid Q N m" "0 \<le> fst p" "fst p < N"
  shows "cellAt m p \<noteq> None \<longrightarrow> Q (cellAt m p)"
    and "0 \<le> snd p \<Longrightarrow> snd p < N \<Longrightarrow> Q (cellAt m p)"
  using assms grid_cell [of Q N m "fst p" "snd p"] grid_row_length [of Q N m "fst p"]
  by (auto simp: cellAt_def elem_def)

lemma edge_okD: "edge_ok Q N e \<Longrightarrow> e \<noteq> None \<Longrightarrow> 0 \<le> i \<and> i < N \<longrightarrow> Q (elem (the e) i)"
  by (auto simp: edge_ok_def)

section \<open>The steps of divide keep a grid\<close>

lemma averageAt_grid:
  assumes g: "grid Q N m" and v: "value_ok str rnd Q"
    and rows: "\<forall>p \<in> set ps. 0 \<le> fst p \<and> fst p < N"
    and one: "\<exists>p \<in> set ps. 0 \<le> snd p \<and> snd p < N"
  shows "\<exists>a. averageAt m ps = Inr a \<and> Q (plus_cell (rand (rnd n) scl) a)"
proof -
  from g have len: "int (length m) = N" by (simp add: grid_def)
  from rows len have r: "reads m ps = Inr (map (cellAt m) ps)"
    by (intro reads_rows) simp
  have a: "\<forall>c \<in> set (map (cellAt m) ps). c \<noteq> None \<longrightarrow> Q c"
    using cellAt_grid(1) [OF g] rows by auto
  from one obtain p where p: "p \<in> set ps" "0 \<le> snd p" "snd p < N" by auto
  with rows cellAt_grid(2) [OF g, of p] have "Q (cellAt m p)" by simp
  with p(1) have b: "\<exists>c \<in> set (map (cellAt m) ps). Q c" by auto
  from v a b have "Q (plus_cell (rand (rnd n) scl) (average (map (cellAt m) ps)))"
    unfolding value_ok_def by blast
  with r show ?thesis by (simp add: averageAt_def)
qed

lemma square_grid:
  assumes "grid Q N m" "value_ok str rnd Q" "N = mx + 1"
    and "0 < half" "half \<le> x" "x + half \<le> mx" "half \<le> y" "y \<le> mx"
  shows "\<exists>a. square m mx x y half = Inr a \<and> Q (plus_cell (rand (rnd n) scl) a)"
proof -
  have "square m mx x y half =
          averageAt m [(x - half, y - half), (x + half, y - half), (x + half, y + half), (x - half, y + half)]"
    using assms(4-6) by (simp add: square_def)
  moreover have "\<exists>a. averageAt m [(x - half, y - half), (x + half, y - half), (x + half, y + half), (x - half, y + half)] = Inr a
      \<and> Q (plus_cell (rand (rnd n) scl) a)"
    using assms(3-8) by (intro averageAt_grid [OF assms(1,2)]) auto
  ultimately show ?thesis by simp
qed

lemma diamond_grid:
  assumes "grid Q N m" "value_ok str rnd Q" "N = mx + 1"
    and "0 < half" "2 * half \<le> mx" "0 \<le> x" "x \<le> mx" "0 \<le> y" "y \<le> mx"
  shows "\<exists>a. diamond m mx x y half = Inr a \<and> Q (plus_cell (rand (rnd n) scl) a)"
proof -
  consider "x < half" | "\<not> x < half" "x > mx - half" | "\<not> x < half" "\<not> x > mx - half"
    by blast
  then show ?thesis
  proof cases
    case 1
    then have "diamond m mx x y half = averageAt m [(x, y - half), (x + half, y), (x, y + half)]"
      by (simp add: diamond_def)
    moreover have "\<exists>a. averageAt m [(x, y - half), (x + half, y), (x, y + half)] = Inr a
        \<and> Q (plus_cell (rand (rnd n) scl) a)"
      using 1 assms(3-9) by (intro averageAt_grid [OF assms(1,2)]) auto
    ultimately show ?thesis by simp
  next
    case 2
    then have "diamond m mx x y half = averageAt m [(x, y - half), (x, y + half), (x - half, y)]"
      by (simp add: diamond_def)
    moreover have "\<exists>a. averageAt m [(x, y - half), (x, y + half), (x - half, y)] = Inr a
        \<and> Q (plus_cell (rand (rnd n) scl) a)"
      using 2 assms(3-9) by (intro averageAt_grid [OF assms(1,2)]) auto
    ultimately show ?thesis by simp
  next
    case 3
    then have "diamond m mx x y half =
        averageAt m [(x, y - half), (x + half, y), (x, y + half), (x - half, y)]"
      by (simp add: diamond_def)
    moreover have "\<exists>a. averageAt m [(x, y - half), (x + half, y), (x, y + half), (x - half, y)] = Inr a
        \<and> Q (plus_cell (rand (rnd n) scl) a)"
      using 3 assms(3-9) by (intro averageAt_grid [OF assms(1,2)]) auto
    ultimately show ?thesis by simp
  qed
qed

lemma squareStep_grid:
  assumes g: "grid Q N (fst s)" and v: "value_ok str rnd Q" and N: "N = mx + 1"
    and b: "0 < half" "half \<le> x" "x + half \<le> mx" "half \<le> y" "y \<le> mx"
  shows "\<exists>s'. squareStep rnd mx scl half y x s = Inr s' \<and> grid Q N (fst s')"
proof -
  from square_grid [OF g v N b, of "snd s" scl]
  obtain a where a: "square (fst s) mx x y half = Inr a" "Q (plus_cell (rand (rnd (snd s)) scl) a)"
    by blast
  from wr_grid [OF g, of x y "plus_cell (rand (rnd (snd s)) scl) a"] a(2) N b
  obtain m' where "wr (fst s) x y (plus_cell (rand (rnd (snd s)) scl) a) = Inr m'" "grid Q N m'"
    by auto
  with a(1) show ?thesis by (simp add: squareStep_def)
qed

lemma storeFixed_grid:
  assumes "grid Q N (fst s)" "0 \<le> x" "x < N" "0 \<le> y \<and> y < N \<longrightarrow> Q v"
  shows "\<exists>s'. storeFixed x y v s = Inr s' \<and> grid Q N (fst s')"
  using wr_grid [OF assms] by (auto simp: storeFixed_def)

lemma diamondStep_grid:
  assumes g: "grid Q N (fst s)" and v: "value_ok str rnd Q" and N: "N = mx + 1"
    and c: "cons_ok Q N c"
    and b: "0 < half" "2 * half \<le> mx" "0 \<le> x" "x \<le> mx" "0 \<le> y" "y \<le> mx"
  shows "\<exists>s'. diamondStep rnd mx c scl half y x s = Inr s' \<and> grid Q N (fst s')"
proof -
  have xr: "0 \<le> x" "x < N" and yr: "0 \<le> y \<and> y < N" using N b by auto
  from c have e: "edge_ok Q N (c_top c)" "edge_ok Q N (c_bottom c)"
      "edge_ok Q N (c_left c)" "edge_ok Q N (c_right c)"
    by (simp_all add: cons_ok_def)
  consider (ct) "c_top c \<noteq> None \<and> x = 0"
    | (cb) "\<not> (c_top c \<noteq> None \<and> x = 0)" "c_bottom c \<noteq> None \<and> x = mx"
    | (cl) "\<not> (c_top c \<noteq> None \<and> x = 0)" "\<not> (c_bottom c \<noteq> None \<and> x = mx)"
          "c_left c \<noteq> None \<and> y = mx"
    | (cr) "\<not> (c_top c \<noteq> None \<and> x = 0)" "\<not> (c_bottom c \<noteq> None \<and> x = mx)"
          "\<not> (c_left c \<noteq> None \<and> y = mx)" "c_right c \<noteq> None \<and> y = 0"
    | (cf) "\<not> (c_top c \<noteq> None \<and> x = 0)" "\<not> (c_bottom c \<noteq> None \<and> x = mx)"
          "\<not> (c_left c \<noteq> None \<and> y = mx)" "\<not> (c_right c \<noteq> None \<and> y = 0)"
    by blast
  then show ?thesis
  proof cases
    case ct
    then have "diamondStep rnd mx c scl half y x s = storeFixed x y (elem (the (c_top c)) y) s"
      by (simp add: diamondStep_def)
    moreover have "Q (elem (the (c_top c)) y)" using edge_okD [OF e(1)] ct yr by blast
    ultimately show ?thesis using storeFixed_grid [OF g xr] by simp
  next
    case cb
    then have "diamondStep rnd mx c scl half y x s = storeFixed x y (elem (the (c_bottom c)) y) s"
      by (auto simp: diamondStep_def)
    moreover have "Q (elem (the (c_bottom c)) y)" using edge_okD [OF e(2)] cb yr by blast
    ultimately show ?thesis using storeFixed_grid [OF g xr] by simp
  next
    case cl
    then have "diamondStep rnd mx c scl half y x s = storeFixed x y (elem (the (c_left c)) x) s"
      by (auto simp: diamondStep_def)
    moreover have "Q (elem (the (c_left c)) x)" using edge_okD [OF e(3)] cl xr by blast
    ultimately show ?thesis using storeFixed_grid [OF g xr] by simp
  next
    case cr
    then have "diamondStep rnd mx c scl half y x s = storeFixed x y (elem (the (c_right c)) x) s"
      by (auto simp: diamondStep_def)
    moreover have "Q (elem (the (c_right c)) x)" using edge_okD [OF e(4)] cr xr by blast
    ultimately show ?thesis using storeFixed_grid [OF g xr] by simp
  next
    case cf
    from diamond_grid [OF g v N b, of "snd s" scl]
    obtain a where a: "diamond (fst s) mx x y half = Inr a"
        "Q (plus_cell (rand (rnd (snd s)) scl) a)"
      by blast
    from wr_grid [OF g xr, of y "plus_cell (rand (rnd (snd s)) scl) a"] a(2)
    obtain m' where "wr (fst s) x y (plus_cell (rand (rnd (snd s)) scl) a) = Inr m'" "grid Q N m'"
      by auto
    with a(1) cf show ?thesis by (auto simp: diamondStep_def)
  qed
qed

lemma dvd_above_neg:
  fixes d a :: int
  assumes "d dvd a" "- d < a" "0 < d"
  shows "0 \<le> a"
proof (rule ccontr)
  assume "\<not> 0 \<le> a"
  then have "0 < - a" by simp
  moreover from assms(1) have "d dvd - a" by simp
  ultimately have "d \<le> - a" by (simp add: zdvd_imp_le)
  with assms(2) show False by simp
qed

lemma square_index:
  assumes "x \<in> set (upto_by half mx (2 * half))" "2 * half dvd mx" "0 < half"
  shows "half \<le> x \<and> x + half \<le> mx"
proof -
  from upto_by_set [OF assms(1)]
  have h: "half \<le> x" "x < mx" "2 * half dvd (x - half)" by simp_all
  have "2 * half dvd mx - (x - half)" using assms(2) h(3) by (rule dvd_diff)
  then have "2 * half dvd (mx - (x - half)) - 2 * half" by (rule dvd_diff) simp
  moreover have "(mx - (x - half)) - 2 * half = mx - (x + half)" by simp
  ultimately have "2 * half dvd mx - (x + half)" by simp
  moreover have "- (2 * half) < mx - (x + half)" using h(2) assms(3) by simp
  ultimately have "0 \<le> mx - (x + half)"
    using assms(3) dvd_above_neg [of "2 * half" "mx - (x + half)"] by simp
  with h(1) show ?thesis by simp
qed

lemma square_loop_grid:
  assumes g: "grid Q N (fst s)" and v: "value_ok str rnd Q" and N: "N = mx + 1"
    and b: "0 < half" "2 * half dvd mx"
  shows "\<exists>s'. foldE (\<lambda>y. foldE (squareStep rnd mx scl half y) (upto_by half mx (2 * half)))
                 (upto_by half mx (2 * half)) s = Inr s' \<and> grid Q N (fst s')"
proof (rule foldE_inv [where I = "\<lambda>t. grid Q N (fst t)", OF g])
  fix y and t :: gen_state assume y: "y \<in> set (upto_by half mx (2 * half))" and t: "grid Q N (fst t)"
  from square_index [OF y b(2,1)] have yb: "half \<le> y" "y \<le> mx" using b(1) by simp_all
  show "\<exists>t'. foldE (squareStep rnd mx scl half y) (upto_by half mx (2 * half)) t = Inr t'
           \<and> grid Q N (fst t')"
  proof (rule foldE_inv [where I = "\<lambda>t. grid Q N (fst t)", OF t])
    fix x and u :: gen_state assume x: "x \<in> set (upto_by half mx (2 * half))" and u: "grid Q N (fst u)"
    from square_index [OF x b(2,1)] have "half \<le> x" "x + half \<le> mx" by simp_all
    then show "\<exists>u'. squareStep rnd mx scl half y x u = Inr u' \<and> grid Q N (fst u')"
      using yb b(1) by (intro squareStep_grid [OF u v N]) simp_all
  qed
qed

lemma diamond_loop_grid:
  assumes g: "grid Q N (fst s)" and v: "value_ok str rnd Q" and N: "N = mx + 1"
    and c: "cons_ok Q N c" and b: "0 < half" "2 * half \<le> mx"
  shows "\<exists>s'. foldE (\<lambda>y. foldE (diamondStep rnd mx c scl half y)
                           (upto_by ((y + half) mod (2 * half)) (mx + 1) (2 * half)))
                 (upto_by 0 (mx + 1) half) s = Inr s' \<and> grid Q N (fst s')"
proof (rule foldE_inv [where I = "\<lambda>t. grid Q N (fst t)", OF g])
  fix y and t :: gen_state assume y: "y \<in> set (upto_by 0 (mx + 1) half)" and t: "grid Q N (fst t)"
  from upto_by_set [OF y] have yb: "0 \<le> y" "y \<le> mx" by simp_all
  show "\<exists>t'. foldE (diamondStep rnd mx c scl half y)
               (upto_by ((y + half) mod (2 * half)) (mx + 1) (2 * half)) t = Inr t'
           \<and> grid Q N (fst t')"
  proof (rule foldE_inv [where I = "\<lambda>t. grid Q N (fst t)", OF t])
    fix x and u :: gen_state
    assume x: "x \<in> set (upto_by ((y + half) mod (2 * half)) (mx + 1) (2 * half))"
      and u: "grid Q N (fst u)"
    have m0: "0 \<le> (y + half) mod (2 * half)" using b(1) by simp
    from upto_by_set [OF x] have h: "(y + half) mod (2 * half) \<le> x" "x < mx + 1" by simp_all
    have "0 \<le> x" using m0 h(1) by (rule order_trans)
    moreover have "x \<le> mx" using h(2) by simp
    ultimately show "\<exists>u'. diamondStep rnd mx c scl half y x u = Inr u' \<and> grid Q N (fst u')"
      using yb b by (intro diamondStep_grid [OF u v N c]) simp_all
  qed
qed

lemma divide_grid:
  assumes v: "value_ok str rnd Q" and N: "N = mx + 1" and c: "cons_ok Q N c"
    and mx: "mx = 2 ^ d" and k: "k \<le> d"
  shows "grid Q N (fst s) \<Longrightarrow>
         \<exists>s'. divide rnd roughness mx c (2 ^ k) s = Inr s' \<and> grid Q N (fst s')"
  using k
proof (induction k arbitrary: s)
  case 0
  then show ?case by (subst divide.simps) simp
next
  case (Suc k)
  let ?half = "(2::int) ^ k"
  have half: "0 < ?half" by simp
  have dv: "2 * ?half dvd mx"
    using Suc.prems(2) unfolding mx by (metis le_imp_power_dvd power_Suc)
  then have le: "2 * ?half \<le> mx" using mx by (intro zdvd_imp_le) simp_all
  have "(1::int) \<le> 2 ^ k" by (rule one_le_power) simp
  then have ge2: "\<not> (2::int) ^ Suc k < 2" by (simp add: not_less)
  have ev: "\<not> odd ((2::int) ^ Suc k)" by simp
  have hf: "(2::int) ^ Suc k div 2 = ?half" by simp
  from square_loop_grid [OF Suc.prems(1) v N half dv]
  obtain s1 where s1: "foldE (\<lambda>y. foldE (squareStep rnd mx (roughness * real_of_int (2 ^ Suc k)) ?half y)
        (upto_by ?half mx (2 * ?half))) (upto_by ?half mx (2 * ?half)) s = Inr s1"
      "grid Q N (fst s1)"
    by blast
  from diamond_loop_grid [OF s1(2) v N c half le]
  obtain s2 where s2: "foldE (\<lambda>y. foldE (diamondStep rnd mx c (roughness * real_of_int (2 ^ Suc k)) ?half y)
        (upto_by ((y + ?half) mod (2 * ?half)) (mx + 1) (2 * ?half)))
        (upto_by 0 (mx + 1) ?half) s1 = Inr s2"
      "grid Q N (fst s2)"
    by blast
  from Suc.IH [OF s2(2)] Suc.prems(2)
  obtain s3 where s3: "divide rnd roughness mx c (2 ^ k) s2 = Inr s3" "grid Q N (fst s3)"
    by auto
  have "divide rnd roughness mx c (2 ^ Suc k) s = Inr s3"
    apply (subst divide.simps)
    apply (simp only: ge2 ev hf if_False)
    using s1(1) s2(1) s3(1) by simp
  with s3(2) show ?case by blast
qed

section \<open>Seeding, filtering and forcing keep a grid\<close>

lemma seedCell_grid:
  assumes g: "grid Q N (fst s)" and v: "value_ok str rnd Q" and xr: "0 \<le> x" "x < N"
    and a: "a \<noteq> None \<longrightarrow> Q (elem (the a) i)" and b: "b \<noteq> None \<longrightarrow> Q (elem (the b) j)"
  shows "\<exists>s'. seedCell rnd scale x y a i b j s = Inr s' \<and> grid Q N (fst s')"
proof -
  consider "a \<noteq> None" | "a = None" "b \<noteq> None" | "a = None" "b = None" by blast
  then show ?thesis
  proof cases
    case 1
    with a storeFixed_grid [OF g xr, of y "elem (the a) i"] show ?thesis
      by (simp add: seedCell_def)
  next
    case 2
    with b storeFixed_grid [OF g xr, of y "elem (the b) j"] show ?thesis
      by (simp add: seedCell_def)
  next
    case 3
    from v have "Q (Some (rand (rnd (snd s)) scale))" by (simp add: value_ok_def)
    with wr_grid [OF g xr, of y "Some (rand (rnd (snd s)) scale)"]
    obtain m' where "wr (fst s) x y (Some (rand (rnd (snd s)) scale)) = Inr m'" "grid Q N m'"
      by auto
    with 3 show ?thesis by (simp add: seedCell_def)
  qed
qed

lemma seedCorners_grid:
  assumes g: "grid Q N (fst s)" and v: "value_ok str rnd Q" and N: "N = mx + 1" "0 \<le> mx"
    and c: "cons_ok Q N c"
  shows "\<exists>s'. seedCorners rnd scale mx c s = Inr s' \<and> grid Q N (fst s')"
proof -
  from c have e: "edge_ok Q N (c_top c)" "edge_ok Q N (c_bottom c)"
      "edge_ok Q N (c_left c)" "edge_ok Q N (c_right c)"
    by (simp_all add: cons_ok_def)
  have r0: "(0::int) \<le> 0" "0 < N" and rm: "0 \<le> mx" "mx < N" using N by simp_all
  have q: "\<And>e i. edge_ok Q N e \<Longrightarrow> i = 0 \<or> i = mx \<Longrightarrow> e \<noteq> None \<longrightarrow> Q (elem (the e) i)"
    using N by (auto simp: edge_ok_def)
  from seedCell_grid [OF g v r0, of "c_top c" 0 "c_right c" 0 scale 0] q e
  obtain s1 where s1: "seedCell rnd scale 0 0 (c_top c) 0 (c_right c) 0 s = Inr s1"
      "grid Q N (fst s1)" by blast
  from seedCell_grid [OF s1(2) v rm, of "c_bottom c" 0 "c_right c" mx scale 0] q e
  obtain s2 where s2: "seedCell rnd scale mx 0 (c_bottom c) 0 (c_right c) mx s1 = Inr s2"
      "grid Q N (fst s2)" by blast
  from seedCell_grid [OF s2(2) v rm, of "c_bottom c" mx "c_left c" mx scale mx] q e
  obtain s3 where s3: "seedCell rnd scale mx mx (c_bottom c) mx (c_left c) mx s2 = Inr s3"
      "grid Q N (fst s3)" by blast
  from seedCell_grid [OF s3(2) v r0, of "c_top c" mx "c_left c" 0 scale mx] q e
  obtain s4 where s4: "seedCell rnd scale 0 mx (c_top c) mx (c_left c) 0 s3 = Inr s4"
      "grid Q N (fst s4)" by blast
  from s1 s2 s3 s4 show ?thesis by (simp add: seedCorners_def)
qed

lemma cellAt_all:
  assumes "grid Q N m"
    and "\<forall>p \<in> set ps. 0 \<le> fst p \<and> fst p < N \<and> 0 \<le> snd p \<and> snd p < N"
  shows "\<forall>c \<in> set (map (cellAt m) ps). Q c"
  using assms(2) cellAt_grid(2) [OF assms(1)] by auto

lemma coreStep_grid:
  assumes s: "grid Q N src" and d: "grid Q N dst" and v: "value_ok str rnd Q"
    and b: "0 \<le> y" "y + 2 < N" "0 \<le> x" "x + 2 < N"
  shows "\<exists>dst'. coreStep src y x dst = Inr dst' \<and> grid Q N dst'"
proof -
  let ?ps = "[(y, x), (y, x + 1), (y, x + 2), (y + 1, x), (y + 1, x + 1), (y + 1, x + 2),
              (y + 2, x), (y + 2, x + 1), (y + 2, x + 2)]"
  from s have len: "int (length src) = N" by (simp add: grid_def)
  have rows: "\<forall>p \<in> set ?ps. 0 \<le> fst p \<and> fst p < N \<and> 0 \<le> snd p \<and> snd p < N"
    using b by simp
  then have r: "reads src ?ps = Inr (map (cellAt src) ?ps)"
    using len by (intro reads_rows) simp
  have "\<forall>c \<in> set (map (cellAt src) ?ps). Q c"
    using s rows by (rule cellAt_all)
  moreover have "length (map (cellAt src) ?ps) = 9" by simp
  ultimately have "Q (f32sort (map (cellAt src) ?ps) ! 4)"
    using v unfolding value_ok_def by blast
  with wr_grid [OF d, of "y + 1" "x + 1" "f32sort (map (cellAt src) ?ps) ! 4"] b
  obtain dst' where "wr dst (y + 1) (x + 1) (f32sort (map (cellAt src) ?ps) ! 4) = Inr dst'"
      "grid Q N dst'" by auto
  with r show ?thesis by (simp add: coreStep_def)
qed

lemma medianStep_grid:
  assumes s: "grid Q N src" and d: "grid Q N dst" and v: "value_ok str rnd Q"
    and t: "0 \<le> fst (fst t)" "fst (fst t) < N" "snd t \<noteq> []"
      "\<forall>p \<in> set (snd t). 0 \<le> fst p \<and> fst p < N \<and> 0 \<le> snd p \<and> snd p < N"
  shows "\<exists>dst'. medianStep str src t dst = Inr dst' \<and> grid Q N dst'"
proof -
  from s have len: "int (length src) = N" by (simp add: grid_def)
  from t(4) have r: "reads src (snd t) = Inr (map (cellAt src) (snd t))"
    using len by (intro reads_rows) simp
  have "\<forall>c \<in> set (map (cellAt src) (snd t)). Q c"
    using s t(4) by (rule cellAt_all)
  then have "Q (median str (map (cellAt src) (snd t)))"
    using v t(3) unfolding value_ok_def by simp
  with wr_grid [OF d t(1,2), of "snd (fst t)" "median str (map (cellAt src) (snd t))"]
  obtain dst' where
    "wr dst (fst (fst t)) (snd (fst t)) (median str (map (cellAt src) (snd t))) = Inr dst'"
    "grid Q N dst'" by auto
  with r show ?thesis by (simp add: medianStep_def)
qed

lemma medianSteps_grid:
  assumes s: "grid Q N src" and d: "grid Q N dst" and v: "value_ok str rnd Q"
    and t: "\<forall>t \<in> set ts. 0 \<le> fst (fst t) \<and> fst (fst t) < N \<and> snd t \<noteq> [] \<and>
             (\<forall>p \<in> set (snd t). 0 \<le> fst p \<and> fst p < N \<and> 0 \<le> snd p \<and> snd p < N)"
  shows "\<exists>dst'. foldE (medianStep str src) ts dst = Inr dst' \<and> grid Q N dst'"
  using t by (intro foldE_inv [where I = "grid Q N", OF d] medianStep_grid [OF s _ v]) auto

lemma median3Filter_grid:
  assumes s: "grid Q N src" and v: "value_ok str rnd Q" and N: "2 \<le> N"
  shows "\<exists>dst. median3Filter str src = Inr dst \<and> grid Q N dst"
proof -
  from s have len: "int (length src) = N" by (simp add: grid_def)
  then have nl: "length src = nat N" by simp
  from v have q0: "Q (Some 0)" by (simp add: value_ok_def)
  have d0: "grid Q N (replicate (length src) (replicate (length src) (Some 0)))"
    unfolding nl using N q0 by (intro grid_replicate) simp_all
  have "\<exists>d1. foldE (\<lambda>y. foldE (coreStep src y) (upto_by 0 (N - 2) 1)) (upto_by 0 (N - 2) 1)
          (replicate (length src) (replicate (length src) (Some 0))) = Inr d1 \<and> grid Q N d1"
  proof (rule foldE_inv [where I = "grid Q N", OF d0])
    fix y and t :: heightfield
    assume y: "y \<in> set (upto_by 0 (N - 2) 1)" and t: "grid Q N t"
    from upto_by_set [OF y] have yb: "0 \<le> y" "y + 2 < N" by simp_all
    show "\<exists>t'. foldE (coreStep src y) (upto_by 0 (N - 2) 1) t = Inr t' \<and> grid Q N t'"
    proof (rule foldE_inv [where I = "grid Q N", OF t])
      fix x and u :: heightfield
      assume x: "x \<in> set (upto_by 0 (N - 2) 1)" and u: "grid Q N u"
      from upto_by_set [OF x] have "0 \<le> x" "x + 2 < N" by simp_all
      with yb show "\<exists>u'. coreStep src y x u = Inr u' \<and> grid Q N u'"
        by (intro coreStep_grid [OF s u v])
    qed
  qed
  then obtain d1 where d1: "foldE (\<lambda>y. foldE (coreStep src y) (upto_by 0 (N - 2) 1))
      (upto_by 0 (N - 2) 1) (replicate (length src) (replicate (length src) (Some 0))) = Inr d1"
      "grid Q N d1" by blast
  let ?n = "N - 1"
  have "\<exists>d2. foldE (medianStep str src)
               [((0, 0), [(0, 0), (1, 0), (0, 1), (1, 1)]),
                ((?n, 0), [(?n, 0), (?n, 1), (?n - 1, 0), (?n - 1, 1)]),
                ((0, ?n), [(0, ?n), (1, ?n), (0, ?n - 1), (1, ?n - 1)]),
                ((?n, ?n), [(?n, ?n), (?n, ?n - 1), (?n - 1, ?n), (?n - 1, ?n - 1)])] d1 = Inr d2
          \<and> grid Q N d2"
    using N by (intro medianSteps_grid [OF s d1(2) v]) simp
  then obtain d2 where d2: "foldE (medianStep str src)
               [((0, 0), [(0, 0), (1, 0), (0, 1), (1, 1)]),
                ((?n, 0), [(?n, 0), (?n, 1), (?n - 1, 0), (?n - 1, 1)]),
                ((0, ?n), [(0, ?n), (1, ?n), (0, ?n - 1), (1, ?n - 1)]),
                ((?n, ?n), [(?n, ?n), (?n, ?n - 1), (?n - 1, ?n), (?n - 1, ?n - 1)])] d1 = Inr d2"
      "grid Q N d2" by blast
  have "\<exists>d3. foldE (\<lambda>y. foldE (medianStep str src)
                     [((y, 0), [(y - 1, 0), (y, 0), (y + 1, 0), (y - 1, 1), (y, 1), (y + 1, 1)]),
                      ((y, ?n), [(y - 1, ?n), (y, ?n), (y + 1, ?n),
                                (y - 1, ?n - 1), (y, ?n - 1), (y + 1, ?n - 1)])])
               (upto_by 1 ?n 1) d2 = Inr d3 \<and> grid Q N d3"
  proof (rule foldE_inv [where I = "grid Q N", OF d2(2)])
    fix y and t :: heightfield
    assume y: "y \<in> set (upto_by 1 ?n 1)" and t: "grid Q N t"
    from upto_by_set [OF y] have "1 \<le> y" "y + 1 < N" by simp_all
    then show "\<exists>t'. foldE (medianStep str src)
                     [((y, 0), [(y - 1, 0), (y, 0), (y + 1, 0), (y - 1, 1), (y, 1), (y + 1, 1)]),
                      ((y, ?n), [(y - 1, ?n), (y, ?n), (y + 1, ?n),
                                (y - 1, ?n - 1), (y, ?n - 1), (y + 1, ?n - 1)])] t = Inr t'
              \<and> grid Q N t'"
      using N by (intro medianSteps_grid [OF s t v]) simp
  qed
  then obtain d3 where d3: "foldE (\<lambda>y. foldE (medianStep str src)
                     [((y, 0), [(y - 1, 0), (y, 0), (y + 1, 0), (y - 1, 1), (y, 1), (y + 1, 1)]),
                      ((y, ?n), [(y - 1, ?n), (y, ?n), (y + 1, ?n),
                                (y - 1, ?n - 1), (y, ?n - 1), (y + 1, ?n - 1)])])
               (upto_by 1 ?n 1) d2 = Inr d3" "grid Q N d3" by blast
  have "\<exists>d4. foldE (\<lambda>x. foldE (medianStep str src)
              [((0, x), [(0, x - 1), (0, x), (0, x + 1), (1, x - 1), (1, x), (1, x + 1)]),
               ((?n, x), [(?n, x - 1), (?n, x), (?n, x + 1),
                         (?n - 1, x - 1), (?n - 1, x), (?n - 1, x + 1)])])
        (upto_by 1 ?n 1) d3 = Inr d4 \<and> grid Q N d4"
  proof (rule foldE_inv [where I = "grid Q N", OF d3(2)])
    fix x and t :: heightfield
    assume x: "x \<in> set (upto_by 1 ?n 1)" and t: "grid Q N t"
    from upto_by_set [OF x] have "1 \<le> x" "x + 1 < N" by simp_all
    then show "\<exists>t'. foldE (medianStep str src)
              [((0, x), [(0, x - 1), (0, x), (0, x + 1), (1, x - 1), (1, x), (1, x + 1)]),
               ((?n, x), [(?n, x - 1), (?n, x), (?n, x + 1),
                         (?n - 1, x - 1), (?n - 1, x), (?n - 1, x + 1)])] t = Inr t'
              \<and> grid Q N t'"
      using N by (intro medianSteps_grid [OF s t v]) simp
  qed
  then obtain d4 where d4: "foldE (\<lambda>x. foldE (medianStep str src)
              [((0, x), [(0, x - 1), (0, x), (0, x + 1), (1, x - 1), (1, x), (1, x + 1)]),
               ((?n, x), [(?n, x - 1), (?n, x), (?n, x + 1),
                         (?n - 1, x - 1), (?n - 1, x), (?n - 1, x + 1)])])
        (upto_by 1 ?n 1) d3 = Inr d4" "grid Q N d4" by blast
  have "median3Filter str src = Inr d4"
    unfolding median3Filter_def Let_def len using d1(1) d2(1) d3(1) d4(1) by simp
  with d4(2) show ?thesis by blast
qed

section \<open>Forcing the edges\<close>

text \<open>A loop of stores whose cell and value depend on the loop variable alone.\<close>

lemma foldE_wr_cells:
  assumes "grid Q N m"
    and "\<forall>k \<in> set ks. 0 \<le> fst (p k) \<and> fst (p k) < N \<and> 0 \<le> snd (p k) \<and> snd (p k) < N
           \<and> Q (f (p k))"
  shows "\<exists>m'. foldE (\<lambda>k t. wr t (fst (p k)) (snd (p k)) (f (p k))) ks m = Inr m' \<and> grid Q N m'
           \<and> (\<forall>q. 0 \<le> fst q \<and> fst q < N \<and> 0 \<le> snd q \<and> snd q < N
                 \<longrightarrow> cellAt m' q = (if q \<in> p ` set ks then f q else cellAt m q))"
  using assms
proof (induction ks arbitrary: m)
  case Nil
  then show ?case by simp
next
  case (Cons k ks)
  from Cons.prems(2) have pk: "0 \<le> fst (p k)" "fst (p k) < N" "0 \<le> snd (p k)" "snd (p k) < N"
      "Q (f (p k))" by simp_all
  from Cons.prems(1) have len: "int (length m) = N" by (simp add: grid_def)
  have rl: "int (length (m ! nat (fst (p k)))) = N"
    by (rule grid_row_length [OF Cons.prems(1) pk(1,2)])
  let ?m1 = "m[nat (fst (p k)) := (m ! nat (fst (p k)))[nat (snd (p k)) := f (p k)]]"
  have w: "wr m (fst (p k)) (snd (p k)) (f (p k)) = Inr ?m1"
    using pk len rl by (simp add: wr_def)
  from wr_grid [OF Cons.prems(1) pk(1,2), of "snd (p k)" "f (p k)"] pk(5) w
  have g1: "grid Q N ?m1" by simp
  from Cons.IH [OF g1] Cons.prems(2)
  obtain m' where m': "foldE (\<lambda>k t. wr t (fst (p k)) (snd (p k)) (f (p k))) ks ?m1 = Inr m'"
      "grid Q N m'"
      "\<forall>q. 0 \<le> fst q \<and> fst q < N \<and> 0 \<le> snd q \<and> snd q < N
          \<longrightarrow> cellAt m' q = (if q \<in> p ` set ks then f q else cellAt ?m1 q)"
    by auto
  have c1: "cellAt ?m1 q = (if q = p k then f q else cellAt m q)"
    if q: "0 \<le> fst q" "fst q < N" "0 \<le> snd q" "snd q < N" for q
  proof (cases "fst q = fst (p k)")
    case True
    show ?thesis
    proof (cases "snd q = snd (p k)")
      case s: True
      with True have "q = p k" by (simp add: prod_eq_iff)
      then show ?thesis using pk len rl by (simp add: cellAt_def elem_def nat_less_iff)
    next
      case s: False
      then have "nat (snd q) \<noteq> nat (snd (p k))" using q pk by simp
      moreover have "q \<noteq> p k" using s by auto
      ultimately show ?thesis
        using True pk len rl by (simp add: cellAt_def elem_def nat_less_iff)
    qed
  next
    case False
    then have "nat (fst q) \<noteq> nat (fst (p k))" using q pk by simp
    then show ?thesis using False by (auto simp: cellAt_def)
  qed
  have "cellAt m' q = (if q \<in> p ` set (k # ks) then f q else cellAt m q)"
    if q: "0 \<le> fst q \<and> fst q < N \<and> 0 \<le> snd q \<and> snd q < N" for q
  proof -
    from q m'(3) have a: "cellAt m' q = (if q \<in> p ` set ks then f q else cellAt ?m1 q)"
      by blast
    from q have b: "cellAt ?m1 q = (if q = p k then f q else cellAt m q)"
      by (intro c1) simp_all
    show ?thesis unfolding a b by auto
  qed
  with m'(1,2) w show ?case by simp
qed

lemma edge_loop:
  assumes g: "grid Q N m" and e: "edge_ok Q N (Some a)" and N: "0 \<le> N"
    and p: "\<forall>k. 0 \<le> k \<and> k < N \<longrightarrow>
               0 \<le> fst (p k) \<and> fst (p k) < N \<and> 0 \<le> snd (p k) \<and> snd (p k) < N"
    and f: "\<forall>k. 0 \<le> k \<and> k < N \<longrightarrow> f (p k) = elem a k"
  shows "\<exists>m'. foldE (\<lambda>k t. wr t (fst (p k)) (snd (p k)) (elem a k)) (upto_by 0 N 1) m = Inr m'
           \<and> grid Q N m'
           \<and> (\<forall>q. 0 \<le> fst q \<and> fst q < N \<and> 0 \<le> snd q \<and> snd q < N
                 \<longrightarrow> cellAt m' q = (if q \<in> p ` {0..<N} then f q else cellAt m q))"
proof -
  have s: "set (upto_by 0 N 1) = {0..<N}" by (auto simp: upto_by_1)
  have eq: "foldE (\<lambda>k t. wr t (fst (p k)) (snd (p k)) (elem a k)) ks m
          = foldE (\<lambda>k t. wr t (fst (p k)) (snd (p k)) (f (p k))) ks m"
    if "set ks \<subseteq> {0..<N}" for ks
    using that
  proof (induction ks arbitrary: m)
    case Nil
    then show ?case by simp
  next
    case (Cons k ks)
    then have "f (p k) = elem a k" using f by simp
    with Cons show ?case by (cases "wr m (fst (p k)) (snd (p k)) (elem a k)") simp_all
  qed
  have "\<forall>k \<in> set (upto_by 0 N 1). 0 \<le> fst (p k) \<and> fst (p k) < N \<and> 0 \<le> snd (p k)
          \<and> snd (p k) < N \<and> Q (f (p k))"
    using p f e unfolding s by (auto simp: edge_ok_def)
  from foldE_wr_cells [OF g this] show ?thesis
    using eq [of "upto_by 0 N 1"] unfolding s by simp
qed

lemma force_row:
  assumes g: "grid Q N m" and e: "edge_ok Q N e" and N: "0 \<le> x" "x < N"
  shows "\<exists>m'. (if e \<noteq> None then foldE (\<lambda>y t. wr t x y (elem (the e) y)) (upto_by 0 N 1) m
                else Inr m) = Inr m' \<and> grid Q N m'
           \<and> (\<forall>q. in_range N q \<longrightarrow>
                 cellAt m' q = (if e \<noteq> None \<and> fst q = x then elem (the e) (snd q) else cellAt m q))"
proof (cases e)
  case None
  with g show ?thesis by simp
next
  case (Some a)
  have im: "in_range N q \<Longrightarrow> q \<in> (\<lambda>k. (x, k)) ` {0..<N} \<longleftrightarrow> fst q = x" for q
    by (auto simp: in_range_def image_iff prod_eq_iff)
  from edge_loop [OF g e [unfolded Some], of "\<lambda>k. (x, k)" "\<lambda>q. elem a (snd q)"] N
  obtain m' where "foldE (\<lambda>k t. wr t x k (elem a k)) (upto_by 0 N 1) m = Inr m'" "grid Q N m'"
      "\<forall>q. in_range N q \<longrightarrow>
         cellAt m' q = (if q \<in> (\<lambda>k. (x, k)) ` {0..<N} then elem a (snd q) else cellAt m q)"
    unfolding in_range_def by auto
  then show ?thesis using Some im by auto
qed

lemma force_col:
  assumes g: "grid Q N m" and e: "edge_ok Q N e" and N: "0 \<le> y" "y < N"
  shows "\<exists>m'. (if e \<noteq> None then foldE (\<lambda>x t. wr t x y (elem (the e) x)) (upto_by 0 N 1) m
                else Inr m) = Inr m' \<and> grid Q N m'
           \<and> (\<forall>q. in_range N q \<longrightarrow>
                 cellAt m' q = (if e \<noteq> None \<and> snd q = y then elem (the e) (fst q) else cellAt m q))"
proof (cases e)
  case None
  with g show ?thesis by simp
next
  case (Some a)
  have im: "in_range N q \<Longrightarrow> q \<in> (\<lambda>k. (k, y)) ` {0..<N} \<longleftrightarrow> snd q = y" for q
    by (auto simp: in_range_def image_iff prod_eq_iff)
  from edge_loop [OF g e [unfolded Some], of "\<lambda>k. (k, y)" "\<lambda>q. elem a (fst q)"] N
  obtain m' where "foldE (\<lambda>k t. wr t k y (elem a k)) (upto_by 0 N 1) m = Inr m'" "grid Q N m'"
      "\<forall>q. in_range N q \<longrightarrow>
         cellAt m' q = (if q \<in> (\<lambda>k. (k, y)) ` {0..<N} then elem a (fst q) else cellAt m q)"
    unfolding in_range_def by auto
  then show ?thesis using Some im by auto
qed

lemma forceEdges_cells:
  assumes g: "grid Q N sm" and c: "cons_ok Q N c" and N: "N = mx + 1" "0 \<le> mx"
  shows "\<exists>m'. forceEdges c N mx sm = Inr m' \<and> grid Q N m'
           \<and> (\<forall>q. in_range N q \<longrightarrow> cellAt m' q = forced c mx sm q)"
proof -
  from c have e: "edge_ok Q N (c_top c)" "edge_ok Q N (c_bottom c)"
      "edge_ok Q N (c_left c)" "edge_ok Q N (c_right c)"
    by (simp_all add: cons_ok_def)
  have r0: "(0::int) \<le> 0" "0 < N" and rm: "0 \<le> mx" "mx < N" using N by simp_all
  from force_row [OF g e(1) r0] obtain m1 where m1:
    "(if c_top c \<noteq> None then foldE (\<lambda>y t. wr t 0 y (elem (the (c_top c)) y)) (upto_by 0 N 1) sm
      else Inr sm) = Inr m1" "grid Q N m1"
    "\<forall>q. in_range N q \<longrightarrow> cellAt m1 q =
       (if c_top c \<noteq> None \<and> fst q = 0 then elem (the (c_top c)) (snd q) else cellAt sm q)"
    by blast
  from force_row [OF m1(2) e(2) rm] obtain m2 where m2:
    "(if c_bottom c \<noteq> None
      then foldE (\<lambda>y t. wr t mx y (elem (the (c_bottom c)) y)) (upto_by 0 N 1) m1
      else Inr m1) = Inr m2" "grid Q N m2"
    "\<forall>q. in_range N q \<longrightarrow> cellAt m2 q =
       (if c_bottom c \<noteq> None \<and> fst q = mx then elem (the (c_bottom c)) (snd q) else cellAt m1 q)"
    by blast
  from force_col [OF m2(2) e(3) rm] obtain m3 where m3:
    "(if c_left c \<noteq> None
      then foldE (\<lambda>x t. wr t x mx (elem (the (c_left c)) x)) (upto_by 0 N 1) m2
      else Inr m2) = Inr m3" "grid Q N m3"
    "\<forall>q. in_range N q \<longrightarrow> cellAt m3 q =
       (if c_left c \<noteq> None \<and> snd q = mx then elem (the (c_left c)) (fst q) else cellAt m2 q)"
    by blast
  from force_col [OF m3(2) e(4) r0] obtain m4 where m4:
    "(if c_right c \<noteq> None
      then foldE (\<lambda>x t. wr t x 0 (elem (the (c_right c)) x)) (upto_by 0 N 1) m3
      else Inr m3) = Inr m4" "grid Q N m4"
    "\<forall>q. in_range N q \<longrightarrow> cellAt m4 q =
       (if c_right c \<noteq> None \<and> snd q = 0 then elem (the (c_right c)) (fst q) else cellAt m3 q)"
    by blast
  have "forceEdges c N mx sm = Inr m4"
    unfolding forceEdges_def using m1(1) m2(1) m3(1) m4(1) by simp
  moreover have "\<forall>q. in_range N q \<longrightarrow> cellAt m4 q = forced c mx sm q"
    using m1(3) m2(3) m3(3) m4(3) by (simp add: forced_def)
  ultimately show ?thesis using m4(2) by blast
qed

section \<open>generateTerrain as a whole\<close>

text \<open>The allocation: which \<open>detail\<close> gives an array, and of which length.\<close>

lemma newArray_sizeOf:
  assumes "0 \<le> detail" "detail < 32"
  shows "newArray (sizeOf detail) = Inr (2 ^ nat detail + 1)"
proof -
  have "nat detail \<le> 31" using assms by simp
  then have "(2::real) ^ nat detail \<le> 2 ^ 31" by (intro power_increasing) simp_all
  then have le: "(2::real) ^ nat detail + 1 \<le> 2 ^ 32 - 1" by simp
  have e: "sizeOf detail = real_of_int (2 ^ nat detail + 1)" using assms by (simp add: sizeOf_def)
  have "0 \<le> real_of_int (2 ^ nat detail + 1)" by simp
  moreover have "real_of_int (2 ^ nat detail + 1) \<le> 2 ^ 32 - 1" using le by simp
  ultimately show ?thesis unfolding newArray_def e by (simp only: floor_of_int if_True simp_thms)
qed

lemma newArray_fraction:
  assumes "- 53 < detail" "detail < 0"
  shows "newArray (sizeOf detail) = Inl RangeError"
proof -
  let ?x = "1 / (2::real) ^ nat (- detail)"
  have "0 < nat (- detail)" using assms by simp
  then have "(2::real) ^ 1 \<le> 2 ^ nat (- detail)" by (intro power_increasing) simp_all
  then have x: "0 < ?x" "?x < 1" by (simp_all add: field_simps)
  have e: "sizeOf detail = 1 + ?x" using assms by (simp add: sizeOf_def)
  have "\<lfloor>1 + ?x\<rfloor> = 1" using x by (simp add: floor_eq_iff)
  then have "1 + ?x \<noteq> real_of_int \<lfloor>1 + ?x\<rfloor>" using x by simp
  then show ?thesis unfolding newArray_def e by (simp only: simp_thms if_False)
qed

lemma newArray_large:
  assumes "32 \<le> detail"
  shows "newArray (sizeOf detail) = Inl RangeError"
proof -
  have "32 \<le> nat detail" using assms by simp
  then have "(2::real) ^ 32 \<le> 2 ^ nat detail" by (intro power_increasing) simp_all
  then have "\<not> (2::real) ^ nat detail + 1 \<le> 2 ^ 32 - 1" by simp
  moreover have "sizeOf detail = 2 ^ nat detail + 1" using assms by (simp add: sizeOf_def)
  ultimately show ?thesis by (simp add: newArray_def)
qed

lemma newArray_one:
  assumes "detail \<le> - 53"
  shows "newArray (sizeOf detail) = Inr 1"
  using assms by (simp add: newArray_def sizeOf_def)


lemma generateTerrain_cells:
  assumes v: "value_ok str rnd Q" and d: "0 \<le> detail" "detail < 32"
    and N: "N = 2 ^ nat detail + 1" and c: "cons_ok Q N c"
  shows "\<exists>sm m n. generateTerrain str rnd detail roughness c n0 = Inr (m, n)
           \<and> grid Q N sm \<and> grid Q N m
           \<and> (\<forall>q. in_range N q \<longrightarrow> cellAt m q = forced c (N - 1) sm q)"
proof -
  let ?mx = "(2::int) ^ nat detail"
  have mx: "N = ?mx + 1" "0 \<le> ?mx" "2 \<le> N" using N by simp_all
  from v have q0: "Q (Some 0)" by (simp add: value_ok_def)
  have g0: "grid Q N (fst (replicate (nat N) (replicate (nat N) (Some 0)), n0))"
    using mx q0 by (simp add: grid_replicate)
  from seedCorners_grid [OF g0 v mx(1,2) c]
  obtain s0 where s0: "seedCorners rnd (roughness * real_of_int N / 2) ?mx c
      (replicate (nat N) (replicate (nat N) (Some 0)), n0) = Inr s0" "grid Q N (fst s0)"
    by blast
  from divide_grid [OF v mx(1) c refl order_refl s0(2)]
  obtain s1 where s1: "divide rnd roughness ?mx c ?mx s0 = Inr s1" "grid Q N (fst s1)"
    by blast
  from median3Filter_grid [OF s1(2) v mx(3)]
  obtain sm where sm: "median3Filter str (fst s1) = Inr sm" "grid Q N sm" by blast
  from forceEdges_cells [OF sm(2) c mx(1,2)]
  obtain m where m: "forceEdges c N ?mx sm = Inr m" "grid Q N m"
      "\<forall>q. in_range N q \<longrightarrow> cellAt m q = forced c ?mx sm q" by blast
  have "generateTerrain str rnd detail roughness c n0 = Inr (m, snd s1)"
    unfolding generateTerrain_def newArray_sizeOf [OF d] bindE_Inr Let_def
    using s0(1) s1(1) sm(1) m(1) by (simp add: N)
  with sm(2) m(2,3) show ?thesis unfolding mx(1) by auto
qed

section \<open>Three kinds of cell\<close>

lemma value_ok_any: "value_ok str rnd (\<lambda>c. True)"
  by (simp add: value_ok_def)

lemma cons_ok_any: "cons_ok (\<lambda>c. True) N c"
  by (simp add: cons_ok_def edge_ok_def)

lemma length_insert_str: "length (insert_str str v vs) = Suc (length vs)"
  by (induction vs) simp_all

lemma length_sort_str: "length (sort_str str vs) = length vs"
  by (induction vs) (simp_all add: length_insert_str)

lemma set_insert_str: "set (insert_str str v vs) = insert v (set vs)"
  by (induction vs) auto

lemma set_sort_str: "set (sort_str str vs) = set vs"
  by (induction vs) (simp_all add: set_insert_str)

lemma filterUndefined_Some: "\<forall>c \<in> set cs. c \<noteq> None \<Longrightarrow> map Some (filterUndefined cs) = cs"
  by (induction cs rule: filterUndefined.induct) simp_all

lemma filterUndefined_set: "set (filterUndefined cs) = {v. Some v \<in> set cs}"
  by (induction cs rule: filterUndefined.induct) auto

lemma filterUndefined_length: "\<forall>c \<in> set cs. c \<noteq> None \<Longrightarrow> length (filterUndefined cs) = length cs"
  by (induction cs rule: filterUndefined.induct) simp_all

lemma value_ok_number: "value_ok str rnd (\<lambda>c. c \<noteq> None)"
  unfolding value_ok_def
proof (intro conjI allI impI)
  fix cs :: "cell list" and n scl
  assume "\<exists>c \<in> set cs. c \<noteq> None"
  then have "filterUndefined cs \<noteq> []"
    using filterUndefined_set [of cs] by (metis (mono_tags, lifting) empty_iff empty_set mem_Collect_eq not_None_eq)
  then show "plus_cell (rand (rnd n) scl) (average cs) \<noteq> None"
    by (simp add: average_def plus_cell_def Let_def)
next
  fix cs :: "cell list"
  assume "cs \<noteq> []" "\<forall>c \<in> set cs. c \<noteq> None"
  then have "length (sort_str str (filterUndefined cs)) \<noteq> 0"
    by (simp add: length_sort_str filterUndefined_length)
  then show "median str cs \<noteq> None"
    unfolding median_def Let_def
    by (cases "length (sort_str str (filterUndefined cs)) mod 2 = 1") simp_all
next
  fix b :: "cell list"
  assume b: "length b = 9" "\<forall>c \<in> set b. c \<noteq> None"
  then have "4 < length (sort (filterUndefined b))"
    by (simp add: filterUndefined_length)
  then show "f32sort b ! 4 \<noteq> None"
    by (simp add: f32sort_def nth_append)
qed simp_all

lemma foldl_zero: "\<forall>v \<in> set vs. v = 0 \<Longrightarrow> foldl (+) (0::real) vs = 0"
  by (induction vs) simp_all

lemma value_ok_zero:
  assumes "\<forall>n. rnd n = 1 / 2"
  shows "value_ok str rnd (\<lambda>c. c = Some 0)"
  unfolding value_ok_def
proof (intro conjI allI impI)
  fix n scl
  show "Some (rand (rnd n) scl) = Some 0" using assms by (simp add: rand_def)
next
  fix cs :: "cell list" and n scl
  assume a: "\<forall>c \<in> set cs. c \<noteq> None \<longrightarrow> c = Some 0" "\<exists>c \<in> set cs. c = Some 0"
  then have z: "\<forall>v \<in> set (filterUndefined cs). v = 0" and ne: "filterUndefined cs \<noteq> []"
    using filterUndefined_set [of cs] by (auto simp flip: set_empty)
  show "plus_cell (rand (rnd n) scl) (average cs) = Some 0"
    using assms ne foldl_zero [OF z] by (simp add: average_def plus_cell_def Let_def rand_def)
next
  fix cs :: "cell list"
  assume a: "cs \<noteq> []" "\<forall>c \<in> set cs. c = Some 0"
  let ?a = "sort_str str (filterUndefined cs)"
  have z: "\<forall>v \<in> set ?a. v = 0" using a(2) by (auto simp: set_sort_str filterUndefined_set)
  have "\<forall>c \<in> set cs. c \<noteq> None" using a(2) by auto
  then have len: "length ?a = length cs" by (simp add: length_sort_str filterUndefined_length)
  with a(1) have pos: "0 < length ?a" by simp
  have nz: "\<And>i. i < length ?a \<Longrightarrow> ?a ! i = 0" using z by simp
  have "(length ?a - 1) div 2 < length ?a" "length ?a div 2 - 1 < length ?a"
      "length ?a div 2 < length ?a"
    using pos by arith+
  then have "?a ! ((length ?a - 1) div 2) = 0" "?a ! (length ?a div 2 - 1) = 0"
      "?a ! (length ?a div 2) = 0"
    by (simp_all only: nz)
  then show "median str cs = Some 0" using pos by (simp add: median_def Let_def)
next
  fix b :: "cell list"
  assume b: "length b = 9" "\<forall>c \<in> set b. c = Some 0"
  have "\<forall>c \<in> set b. c \<noteq> None" using b(2) by auto
  then have "4 < length (sort (filterUndefined b))" using b(1) by (simp add: filterUndefined_length)
  moreover have "\<forall>v \<in> set (sort (filterUndefined b)). v = 0"
    using b(2) by (auto simp: filterUndefined_set)
  ultimately have "sort (filterUndefined b) ! 4 = 0" by (metis nth_mem)
  then show "f32sort b ! 4 = Some 0"
    using \<open>4 < length (sort (filterUndefined b))\<close> by (simp add: f32sort_def nth_append)
qed simp

lemma float32_int: "\<bar>n\<bar> < 2 ^ 24 \<Longrightarrow> float32 (real_of_int n)"
  unfolding float32_def by (rule bexI [of _ 149]) (simp_all add: Let_def)

lemma float32_corner_clash: "float32_ok corner_clash"
  using float32_int [of 0] float32_int [of 1] float32_int [of 2] float32_int [of 3]
    float32_int [of 5] float32_int [of 9]
  by (simp add: float32_ok_def edge_float32_def corner_clash_def free_def)

lemma replicate_numeral_eval: "replicate (numeral k) x = x # replicate (pred_numeral k) x"
  by (simp add: numeral_eq_Suc)

lemma list_update_numeral_eval: "(x # xs)[numeral k := y] = x # xs[pred_numeral k := y]"
  by (simp add: numeral_eq_Suc)

lemma newArray_eval: "newArray (sizeOf 0) = Inr 2" "newArray (sizeOf 1) = Inr 3"
  by (simp_all add: newArray_def sizeOf_def)

lemmas gen_eval = generateTerrain_def newArray_eval seedCorners_def seedCell_def storeFixed_def wr_def rd_def
  elem_def divide.simps upto_by.simps squareStep_def diamondStep_def square_def diamond_def
  averageAt_def average_def plus_cell_def rand_def median3Filter_def coreStep_def medianStep_def
  median_def f32sort_def forceEdges_def Let_def free_def numberToString_def digits.simps
  replicate_numeral_eval list_update_numeral_eval

section \<open>The cells of the returned map\<close>

lemma generateTerrain_total:
  assumes "0 \<le> detail" "detail < 32" "N = 2 ^ nat detail + 1"
  shows "\<exists>sm m n. generateTerrain str rnd detail roughness c n0 = Inr (m, n)
           \<and> grid (\<lambda>c. True) N m
           \<and> (\<forall>q. in_range N q \<longrightarrow> cellAt m q = forced c (N - 1) sm q)"
  using generateTerrain_cells [OF value_ok_any assms cons_ok_any, of str rnd roughness c n0]
  by blast

text \<open>
  A map of one row: the corners are seeded, \<^verbatim>\<open>divide(0)\<close> returns at once, and the
  median filter reads \<^verbatim>\<open>src[1][0]\<close>, where there is no row.
\<close>

lemma median3Filter_one_row:
  assumes "length src = 1"
  shows "median3Filter str src = Inl TypeError"
proof -
  have u: "upto_by 0 (- 1) 1 = []" by (simp add: upto_by.simps [of 0 "- 1" 1])
  have ms: "medianStep str src ((0, 0), [(0, 0), (1, 0), (0, 1), (1, 1)]) d = Inl TypeError" for d
    using assms by (simp add: medianStep_def rd_def)
  show ?thesis
    unfolding median3Filter_def Let_def using assms by (simp add: u ms)
qed

lemma generateTerrain_one_row:
  assumes "detail \<le> - 53"
  shows "generateTerrain str rnd detail roughness c n0 = Inl TypeError"
proof -
  have g0: "grid (\<lambda>c. True) 1 (fst (replicate (nat 1) (replicate (nat 1) (Some 0)), n0))"
    using grid_replicate [of 1 "\<lambda>c. True" "Some 0"] by simp
  have N: "(1::int) = 0 + 1" "(0::int) \<le> 0" by simp_all
  from seedCorners_grid [where rnd = rnd and scale = "roughness * real_of_int 1 / 2" and c = c,
      OF g0 value_ok_any N cons_ok_any]
  obtain s0 where s0: "seedCorners rnd (roughness * real_of_int 1 / 2) 0 c
      (replicate (nat 1) (replicate (nat 1) (Some 0)), n0) = Inr s0" "grid (\<lambda>c. True) 1 (fst s0)"
    by blast
  have d: "divide rnd roughness 0 c 0 s0 = Inr s0" by (subst divide.simps) simp
  from s0(2) have "length (fst s0) = 1" by (simp add: grid_def)
  then have f: "median3Filter str (fst s0) = Inl TypeError" by (rule median3Filter_one_row)
  show ?thesis
    unfolding generateTerrain_def newArray_one [OF assms] bindE_Inr Let_def
    using s0(1) d f by simp
qed

lemma grid_length: "grid Q N m \<Longrightarrow> length m = nat N"
  by (auto simp: grid_def)

lemma grid_nth:
  assumes "grid Q N m" "i < nat N"
  shows "length (m ! i) = nat N" "elem (m ! i) j = cellAt m (int i, j)"
proof -
  from assms have "m ! i \<in> set m" by (simp add: grid_length)
  with assms(1) show "length (m ! i) = nat N" by (auto simp: grid_def)
  show "elem (m ! i) j = cellAt m (int i, j)" by (simp add: cellAt_def)
qed

lemma column_forced:
  assumes g: "grid Q N m" and f: "\<forall>q. in_range N q \<longrightarrow> cellAt m q = forced c mx sm q"
    and N: "N = mx + 1" "0 \<le> y" "y \<le> mx"
    and v: "\<forall>i. 0 \<le> i \<and> i < N \<longrightarrow> forced c mx sm (i, y) = elem e i"
    and e: "int (length e) = N"
  shows "map (\<lambda>row. elem row y) m = e"
proof (rule nth_equalityI)
  show "length (map (\<lambda>row. elem row y) m) = length e"
    using grid_length [OF g] e by simp
next
  fix i assume "i < length (map (\<lambda>row. elem row y) m)"
  then have i: "i < length m" by simp
  have ln: "length m = nat N" by (rule grid_length [OF g])
  with i have iN: "i < nat N" by simp
  then have r: "in_range N (int i, y)" using N by (simp add: in_range_def)
  have "map (\<lambda>row. elem row y) m ! i = elem (m ! i) y" using i by simp
  also have "\<dots> = cellAt m (int i, y)" by (rule grid_nth(2) [OF g iN])
  also have "\<dots> = forced c mx sm (int i, y)" using f r by simp
  also have "\<dots> = elem e (int i)" using v iN by simp
  also have "\<dots> = e ! i"
  proof -
    have "int i < int (length e)" using e iN by simp
    then show ?thesis by (simp add: elem_def)
  qed
  finally show "map (\<lambda>row. elem row y) m ! i = e ! i" .
qed

lemma extractRight_forced:
  assumes "grid Q N m" "\<forall>q. in_range N q \<longrightarrow> cellAt m q = forced c mx sm q"
    and "N = mx + 1" "0 \<le> mx" "c_right c = Some r" "int (length r) = N"
  shows "extractRight m = r"
  unfolding extractRight_def
  using assms(3-5) by (intro column_forced [OF assms(1,2)] assms(6)) (simp_all add: forced_def)

lemma extractLeft_forced:
  assumes g: "grid Q N m" and f: "\<forall>q. in_range N q \<longrightarrow> cellAt m q = forced c mx sm q"
    and N: "N = mx + 1" "1 \<le> mx" and l: "c_left c = Some l" "int (length l) = N"
  shows "extractLeft m = l"
proof -
  have "extractLeft m = map (\<lambda>row. elem row mx) m"
    unfolding extractLeft_def using g N by (auto simp: grid_def)
  also have "\<dots> = l"
    using N l(1) by (intro column_forced [OF g f] l(2)) (simp_all add: forced_def)
  finally show ?thesis .
qed

lemma row_forced:
  assumes g: "grid Q N m" and f: "\<forall>q. in_range N q \<longrightarrow> cellAt m q = forced c mx sm q"
    and N: "N = mx + 1" "0 \<le> x" "x \<le> mx"
    and v: "\<forall>j. 0 \<le> j \<and> j < N \<longrightarrow> forced c mx sm (x, j) = e ! nat j"
    and e: "int (length e) = N"
  shows "m ! nat x = e"
proof (rule nth_equalityI)
  have xN: "nat x < nat N" using N by simp
  show len: "length (m ! nat x) = length e" using grid_nth(1) [OF g xN] e by simp
  fix j assume jl: "j < length (m ! nat x)"
  then have j: "j < nat N" using grid_nth(1) [OF g xN] by simp
  then have r: "in_range N (x, int j)" using N by (simp add: in_range_def)
  from jl have "int j < int (length (m ! nat x))" by simp
  then have "m ! nat x ! j = elem (m ! nat x) (int j)"
    by (simp add: elem_def)
  also have "\<dots> = cellAt m (x, int j)" by (simp add: cellAt_def)
  also have "\<dots> = forced c mx sm (x, int j)" using f r by simp
  also have "\<dots> = e ! j" using v j by simp
  finally show "m ! nat x ! j = e ! j" .
qed

lemma corner_fix_nth:
  assumes "j < length e" "1 < length e"
  shows "corner_fix e c i ! j =
           (if j = 0 \<and> c_right c \<noteq> None then the (c_right c) ! i
            else if j = length e - 1 \<and> c_left c \<noteq> None then the (c_left c) ! i
            else e ! j)"
  using assms by (auto simp: corner_fix_def nth_list_update split: option.splits)

lemma length_corner_fix [simp]: "length (corner_fix e c i) = length e"
  by (simp add: corner_fix_def split: option.splits)

lemma top_forced:
  assumes g: "grid Q N m" and f: "\<forall>q. in_range N q \<longrightarrow> cellAt m q = forced c mx sm q"
    and N: "N = mx + 1" "1 \<le> mx" and t: "c_top c = Some t" and len: "lengths_ok N c"
  shows "extractTop m = Some (corner_fix t c 0)"
proof -
  from len t have lt: "int (length t) = N" by (simp add: lengths_ok_def edge_len_def)
  have "m ! nat 0 = corner_fix t c 0"
  proof (rule row_forced [OF g f N(1)])
    show "\<forall>j. 0 \<le> j \<and> j < N \<longrightarrow> forced c mx sm (0, j) = corner_fix t c 0 ! nat j"
    proof (intro allI impI)
      fix j assume j: "0 \<le> j \<and> j < N"
      then have "nat j < length t" "1 < length t" using lt N by (simp_all add: nat_less_iff)
      from corner_fix_nth [OF this, of c 0] j lt N t len
      show "forced c mx sm (0, j) = corner_fix t c 0 ! nat j"
        by (auto simp: forced_def elem_def lengths_ok_def edge_len_def nat_eq_iff)
    qed
  qed (use N lt in simp_all)
  moreover have "m \<noteq> []" using g N by (auto simp: grid_def)
  ultimately show ?thesis by (cases m) (simp_all add: extractTop_def)
qed

lemma bottom_forced:
  assumes g: "grid Q N m" and f: "\<forall>q. in_range N q \<longrightarrow> cellAt m q = forced c mx sm q"
    and N: "N = mx + 1" "1 \<le> mx" and b: "c_bottom c = Some b" and len: "lengths_ok N c"
  shows "extractBottom m = Some (corner_fix b c (nat mx))"
proof -
  from len b have lb: "int (length b) = N" by (simp add: lengths_ok_def edge_len_def)
  have "m ! nat mx = corner_fix b c (nat mx)"
  proof (rule row_forced [OF g f N(1)])
    show "\<forall>j. 0 \<le> j \<and> j < N \<longrightarrow> forced c mx sm (mx, j) = corner_fix b c (nat mx) ! nat j"
    proof (intro allI impI)
      fix j assume j: "0 \<le> j \<and> j < N"
      then have "nat j < length b" "1 < length b" using lb N by (simp_all add: nat_less_iff)
      from corner_fix_nth [OF this, of c "nat mx"] j lb N b len
      show "forced c mx sm (mx, j) = corner_fix b c (nat mx) ! nat j"
        by (auto simp: forced_def elem_def lengths_ok_def edge_len_def nat_eq_iff)
    qed
  qed (use N lb in simp_all)
  moreover have "m \<noteq> []" and "length m = nat N" using g N grid_length [OF g] by auto
  moreover have "nat (mx + 1) - Suc 0 = nat mx" using N by simp
  ultimately show ?thesis using N by (simp add: extractBottom_def last_conv_nth)
qed

lemma corner_fix_same:
  assumes "\<forall>r. c_right c = Some r \<longrightarrow> r ! i = e ! 0"
    and "\<forall>l. c_left c = Some l \<longrightarrow> l ! i = e ! (length e - 1)"
  shows "corner_fix e c i = e"
  using assms by (auto simp: corner_fix_def split: option.splits)

lemma cons_ok_numbers:
  assumes "lengths_ok N c" "numbers_ok c"
  shows "cons_ok (\<lambda>c. c \<noteq> None) N c"
proof -
  have "edge_ok (\<lambda>c. c \<noteq> None) N e" if "edge_len N e" "edge_numbers e" for e
    unfolding edge_ok_def
  proof (intro allI impI)
    fix a i assume a: "e = Some a" "0 \<le> i" "i < N"
    with that have "int (length a) = N" "None \<notin> set a"
      by (simp_all add: edge_len_def edge_numbers_def)
    with a(2,3) have "nat i < length a" by (simp add: nat_less_iff)
    then have "a ! nat i \<in> set a" by simp
    with \<open>None \<notin> set a\<close> have "a ! nat i \<noteq> None" by metis
    with a(2,3) \<open>int (length a) = N\<close> show "elem a i \<noteq> None" by (simp add: elem_def)
  qed
  with assms show ?thesis by (simp add: cons_ok_def lengths_ok_def numbers_ok_def)
qed

lemma wr_cellAt:
  assumes "grid Q N m" "in_range N (x, y)"
  shows "\<exists>m'. wr m x y v = Inr m' \<and> grid (\<lambda>c. True) N m'
           \<and> (\<forall>q. in_range N q \<longrightarrow> cellAt m' q = (if q = (x, y) then v else cellAt m q))"
proof -
  have g: "grid (\<lambda>c. True) N m" by (rule grid_weaken [OF assms(1)]) simp
  have "\<forall>k \<in> set [0::nat]. 0 \<le> fst (x, y) \<and> fst (x, y) < N \<and> 0 \<le> snd (x, y) \<and> snd (x, y) < N
          \<and> True"
    using assms(2) by (simp add: in_range_def)
  from foldE_wr_cells [OF g, of "[0::nat]" "\<lambda>k. (x, y)" "\<lambda>q. v", OF this]
  obtain m' where m': "foldE (\<lambda>k t. wr t (fst (x, y)) (snd (x, y)) v) [0::nat] m = Inr m'"
      "grid (\<lambda>c. True) N m'"
      "\<forall>q. 0 \<le> fst q \<and> fst q < N \<and> 0 \<le> snd q \<and> snd q < N
          \<longrightarrow> cellAt m' q = (if q \<in> (\<lambda>k. (x, y)) ` set [0::nat] then v else cellAt m q)"
    by blast
  from m'(1) have "wr m x y v = Inr m'" by (cases "wr m x y v") simp_all
  moreover have "\<forall>q. in_range N q \<longrightarrow> cellAt m' q = (if q = (x, y) then v else cellAt m q)"
    using m'(3) by (simp add: in_range_def)
  ultimately show ?thesis using m'(2) by blast
qed

lemma seedCell_cells:
  assumes g: "grid Q N m" and r: "in_range N (x, y)"
  shows "\<exists>m'. seedCell rnd scale x y a i b j (m, n) = Inr (m', seedCount a b n)
           \<and> grid (\<lambda>c. True) N m'
           \<and> (\<forall>q. in_range N q \<longrightarrow> cellAt m' q =
                 (if q = (x, y) then seedValue rnd scale a i b j n else cellAt m q))"
proof -
  from wr_cellAt [OF g r, of "seedValue rnd scale a i b j n"]
  obtain m' where m': "wr m x y (seedValue rnd scale a i b j n) = Inr m'" "grid (\<lambda>c. True) N m'"
      "\<forall>q. in_range N q \<longrightarrow> cellAt m' q =
         (if q = (x, y) then seedValue rnd scale a i b j n else cellAt m q)"
    by blast
  from m'(1) have "seedCell rnd scale x y a i b j (m, n) = Inr (m', seedCount a b n)"
    by (auto simp: seedCell_def storeFixed_def seedValue_def seedCount_def)
  with m'(2,3) show ?thesis by blast
qed

lemma seeded_value:
  assumes "n \<le> k" "k < n + 4"
  shows "seeded rnd scale n a i b j (seedValue rnd scale a i b j k)"
  using assms by (auto simp: seeded_def seedValue_def)

lemma seedCount_bounds: "n \<le> seedCount a b n" "seedCount a b n \<le> Suc n"
  by (simp_all add: seedCount_def)

lemma seedCorners_cells:
  assumes "grid (\<lambda>c. True) (mx + 1) m" "1 \<le> mx"
  shows "\<exists>m' n'. seedCorners rnd scale mx c (m, n) = Inr (m', n') \<and>
            seeded rnd scale n (c_top c) 0 (c_right c) 0 (cellAt m' (0, 0)) \<and>
            seeded rnd scale n (c_bottom c) 0 (c_right c) mx (cellAt m' (mx, 0)) \<and>
            seeded rnd scale n (c_bottom c) mx (c_left c) mx (cellAt m' (mx, mx)) \<and>
            seeded rnd scale n (c_top c) mx (c_left c) 0 (cellAt m' (0, mx))"
proof -
  let ?N = "mx + 1"
  have r: "in_range ?N (0, 0)" "in_range ?N (mx, 0)" "in_range ?N (mx, mx)" "in_range ?N (0, mx)"
    using assms(2) by (simp_all add: in_range_def)
  have ne: "(mx, 0) \<noteq> (0, 0)" "(mx, mx) \<noteq> (0, 0)" "(0, mx) \<noteq> (0, 0)" "(mx, mx) \<noteq> (mx, 0)"
      "(0, mx) \<noteq> (mx, 0)" "(0, mx) \<noteq> (mx, mx)"
    using assms(2) by simp_all
  let ?n1 = "seedCount (c_top c) (c_right c) n"
  let ?n2 = "seedCount (c_bottom c) (c_right c) ?n1"
  let ?n3 = "seedCount (c_bottom c) (c_left c) ?n2"
  let ?n4 = "seedCount (c_top c) (c_left c) ?n3"
  let ?v1 = "seedValue rnd scale (c_top c) 0 (c_right c) 0 n"
  let ?v2 = "seedValue rnd scale (c_bottom c) 0 (c_right c) mx ?n1"
  let ?v3 = "seedValue rnd scale (c_bottom c) mx (c_left c) mx ?n2"
  let ?v4 = "seedValue rnd scale (c_top c) mx (c_left c) 0 ?n3"
  from seedCell_cells [OF assms(1) r(1), of rnd scale "c_top c" 0 "c_right c" 0 n]
  obtain m1 where s1: "seedCell rnd scale 0 0 (c_top c) 0 (c_right c) 0 (m, n) = Inr (m1, ?n1)"
      "grid (\<lambda>c. True) ?N m1"
      "\<forall>q. in_range ?N q \<longrightarrow> cellAt m1 q = (if q = (0, 0) then ?v1 else cellAt m q)"
    by blast
  from seedCell_cells [OF s1(2) r(2), of rnd scale "c_bottom c" 0 "c_right c" mx ?n1]
  obtain m2 where s2: "seedCell rnd scale mx 0 (c_bottom c) 0 (c_right c) mx (m1, ?n1) = Inr (m2, ?n2)"
      "grid (\<lambda>c. True) ?N m2"
      "\<forall>q. in_range ?N q \<longrightarrow> cellAt m2 q = (if q = (mx, 0) then ?v2 else cellAt m1 q)"
    by blast
  from seedCell_cells [OF s2(2) r(3), of rnd scale "c_bottom c" mx "c_left c" mx ?n2]
  obtain m3 where s3: "seedCell rnd scale mx mx (c_bottom c) mx (c_left c) mx (m2, ?n2) = Inr (m3, ?n3)"
      "grid (\<lambda>c. True) ?N m3"
      "\<forall>q. in_range ?N q \<longrightarrow> cellAt m3 q = (if q = (mx, mx) then ?v3 else cellAt m2 q)"
    by blast
  from seedCell_cells [OF s3(2) r(4), of rnd scale "c_top c" mx "c_left c" 0 ?n3]
  obtain m4 where s4: "seedCell rnd scale 0 mx (c_top c) mx (c_left c) 0 (m3, ?n3) = Inr (m4, ?n4)"
      "\<forall>q. in_range ?N q \<longrightarrow> cellAt m4 q = (if q = (0, mx) then ?v4 else cellAt m3 q)"
    by blast
  have run: "seedCorners rnd scale mx c (m, n) = Inr (m4, ?n4)"
    using s1(1) s2(1) s3(1) s4(1) by (simp add: seedCorners_def)
  have c1: "cellAt m4 (0, 0) = ?v1" using s1(3) s2(3) s3(3) s4(2) r ne by simp
  have c2: "cellAt m4 (mx, 0) = ?v2" using s2(3) s3(3) s4(2) r ne by simp
  have c3: "cellAt m4 (mx, mx) = ?v3" using s3(3) s4(2) r ne by simp
  have c4: "cellAt m4 (0, mx) = ?v4" using s4(2) r by simp
  have k: "n \<le> n" "n < n + 4" "n \<le> ?n1" "?n1 < n + 4" "n \<le> ?n2" "?n2 < n + 4"
      "n \<le> ?n3" "?n3 < n + 4"
    by (simp_all add: seedCount_def)
  show ?thesis
    unfolding run
    using seeded_value [OF k(1,2), of rnd scale "c_top c" 0 "c_right c" 0]
      seeded_value [OF k(3,4), of rnd scale "c_bottom c" 0 "c_right c" mx]
      seeded_value [OF k(5,6), of rnd scale "c_bottom c" mx "c_left c" mx]
      seeded_value [OF k(7,8), of rnd scale "c_top c" mx "c_left c" 0]
    by (intro exI [of _ m4] exI [of _ ?n4]) (simp only: c1 c2 c3 c4 seeded_value simp_thms)
qed

lemma rand_range:
  assumes "0 \<le> u" "u < 1" "0 \<le> scale"
  shows "- scale \<le> rand u scale \<and> rand u scale \<le> scale"
proof -
  from assms have "0 \<le> u * scale" by simp
  moreover from assms have "u * scale \<le> 1 * scale" by (intro mult_right_mono) simp_all
  ultimately show ?thesis unfolding rand_def by linarith
qed

section \<open>The store\<close>

lemma addTerrainChunk_present:
  "chunkHeights w (x, y) \<noteq> None \<Longrightarrow> addTerrainChunk str rnd x y w = Inr w"
  by (simp add: addTerrainChunk_def)

lemma addTerrainChunk_absent:
  assumes "chunkHeights w (x, y) = None"
  shows "\<exists>sm m n. generateTerrain str rnd 5 5 (neighborEdges w x y) (drawn w) = Inr (m, n)
           \<and> grid (\<lambda>c. True) 33 m
           \<and> (\<forall>q. in_range 33 q \<longrightarrow> cellAt m q = forced (neighborEdges w x y) 32 sm q)
           \<and> addTerrainChunk str rnd x y w =
               Inr (w\<lparr>chunkHeights := (chunkHeights w)((x, y) \<mapsto> m), drawn := n,
                      meshes := meshes w @ [(x, y)]\<rparr>)"
proof -
  have "(0::int) \<le> 5" "(5::int) < 32" "(33::int) = 2 ^ nat 5 + 1" by simp_all
  from generateTerrain_total [OF this, of str rnd 5 "neighborEdges w x y" "drawn w"]
  obtain sm m n where m: "generateTerrain str rnd 5 5 (neighborEdges w x y) (drawn w) = Inr (m, n)"
      "grid (\<lambda>c. True) 33 m"
      "\<forall>q. in_range 33 q \<longrightarrow> cellAt m q = forced (neighborEdges w x y) 32 sm q"
    by auto
  from assms m(1) have "addTerrainChunk str rnd x y w =
      Inr (w\<lparr>chunkHeights := (chunkHeights w)((x, y) \<mapsto> m), drawn := n,
             meshes := meshes w @ [(x, y)]\<rparr>)"
    by (simp add: addTerrainChunk_def addTerrainMesh_def)
  with m show ?thesis by blast
qed

lemma addTerrainChunk_step:
  "\<exists>w'. addTerrainChunk str rnd x y w = Inr w'
     \<and> dom (chunkHeights w') = insert (x, y) (dom (chunkHeights w))
     \<and> meshes w' = meshes w @ (if (x, y) \<in> dom (chunkHeights w) then [] else [(x, y)])
     \<and> (\<forall>k h. chunkHeights w k = Some h \<longrightarrow> chunkHeights w' k = Some h)"
proof (cases "chunkHeights w (x, y)")
  case None
  from addTerrainChunk_absent [OF None, of str rnd]
  obtain m n where "addTerrainChunk str rnd x y w =
      Inr (w\<lparr>chunkHeights := (chunkHeights w)((x, y) \<mapsto> m), drawn := n,
             meshes := meshes w @ [(x, y)]\<rparr>)"
    by blast
  with None show ?thesis by (auto simp: domIff)
next
  case (Some h)
  then have "addTerrainChunk str rnd x y w = Inr w" by (simp add: addTerrainChunk_present)
  with Some show ?thesis by (auto simp: domIff)
qed

lemma addChunks:
  "\<exists>w'. foldE (\<lambda>k. addTerrainChunk str rnd (fst k) (snd k)) ks w = Inr w'
     \<and> dom (chunkHeights w') = dom (chunkHeights w) \<union> set ks
     \<and> meshes w' = meshes w @ fresh (dom (chunkHeights w)) ks
     \<and> (\<forall>k h. chunkHeights w k = Some h \<longrightarrow> chunkHeights w' k = Some h)"
proof (induction ks arbitrary: w)
  case Nil
  then show ?case by simp
next
  case (Cons k ks)
  from addTerrainChunk_step [of str rnd "fst k" "snd k" w]
  obtain w1 where w1: "addTerrainChunk str rnd (fst k) (snd k) w = Inr w1"
      "dom (chunkHeights w1) = insert k (dom (chunkHeights w))"
      "meshes w1 = meshes w @ (if k \<in> dom (chunkHeights w) then [] else [k])"
      "\<forall>j h. chunkHeights w j = Some h \<longrightarrow> chunkHeights w1 j = Some h"
    by auto
  from Cons.IH [of w1]
  obtain w' where w': "foldE (\<lambda>k. addTerrainChunk str rnd (fst k) (snd k)) ks w1 = Inr w'"
      "dom (chunkHeights w') = dom (chunkHeights w1) \<union> set ks"
      "meshes w' = meshes w1 @ fresh (dom (chunkHeights w1)) ks"
      "\<forall>j h. chunkHeights w1 j = Some h \<longrightarrow> chunkHeights w' j = Some h"
    by blast
  have "meshes w' = meshes w @ fresh (dom (chunkHeights w)) (k # ks)"
    unfolding w'(3) w1(2,3) by (simp add: insert_absorb)
  moreover have "dom (chunkHeights w') = dom (chunkHeights w) \<union> set (k # ks)"
    unfolding w'(2) w1(2) by auto
  ultimately show ?case using w1(1,4) w'(1,4) by simp
qed

lemma fresh_distinct: "distinct ks \<Longrightarrow> fresh D ks = filter (\<lambda>k. k \<notin> D) ks"
proof (induction ks arbitrary: D)
  case Nil
  then show ?case by simp
next
  case (Cons k ks)
  then have "filter (\<lambda>j. j \<notin> insert k D) ks = filter (\<lambda>j. j \<notin> D) ks"
    by (intro filter_cong) auto
  with Cons show ?case by simp
qed

lemma fresh_twice: "fresh D (k # k # ks) = fresh D (k # ks)"
  by simp

lemma foldE_map: "foldE f (map g ks) s = foldE (\<lambda>k. f (g k)) ks s"
proof (induction ks arbitrary: s)
  case Nil
  then show ?case by simp
next
  case (Cons k ks)
  then show ?case by (cases "f (g k) s") simp_all
qed

lemma generateNeighboringChunks_fold:
  "generateNeighboringChunks str rnd x y w =
     foldE (\<lambda>k. addTerrainChunk str rnd (fst k) (snd k))
       [(x, y), (x, y), (x + 1, y), (x - 1, y), (x, y + 1), (x, y - 1),
        (x + 1, y + 1), (x - 1, y - 1), (x + 1, y - 1), (x - 1, y + 1)] w"
proof -
  let ?F = "\<lambda>k. addTerrainChunk str rnd (fst k) (snd k)"
  let ?g = "\<lambda>d. (x + fst d, y + snd d)"
  have "foldE (\<lambda>d. addTerrainChunk str rnd (x + fst d) (y + snd d)) neighborDirections
      = foldE ?F (map ?g neighborDirections)"
  proof
    fix s
    show "foldE (\<lambda>d. addTerrainChunk str rnd (x + fst d) (y + snd d)) neighborDirections s
        = foldE ?F (map ?g neighborDirections) s"
      using foldE_map [of ?F ?g neighborDirections s] by simp
  qed
  then have "generateNeighboringChunks str rnd x y w
      = foldE ?F ((x, y) # map ?g neighborDirections) w"
    unfolding generateNeighboringChunks_def by (simp only: foldE.simps fst_conv snd_conv)
  also have "map ?g neighborDirections =
      [(x, y), (x + 1, y), (x - 1, y), (x, y + 1), (x, y - 1),
       (x + 1, y + 1), (x - 1, y - 1), (x + 1, y - 1), (x - 1, y + 1)]"
    by (simp add: neighborDirections_def)
  finally show ?thesis .
qed

lemma extractBottom_grid:
  assumes "grid Q 33 t"
  shows "extractBottom t = Some (t ! 32)" "cellAt t (32, j) = elem (t ! 32) j"
proof -
  from assms have l: "length t = 33" by (simp add: grid_def)
  then have "t \<noteq> []" by auto
  with l show "extractBottom t = Some (t ! 32)" by (simp add: extractBottom_def last_conv_nth)
  show "cellAt t (32, j) = elem (t ! 32) j" by (simp add: cellAt_def)
qed

lemma extractTop_grid:
  assumes "grid Q 33 a"
  shows "extractTop a = Some (a ! 0)" "cellAt a (0, j) = elem (a ! 0) j"
proof -
  from assms have l: "length a = 33" by (simp add: grid_def)
  then show "extractTop a = Some (a ! 0)" by (cases a) (simp_all add: extractTop_def)
  show "cellAt a (0, j) = elem (a ! 0) j" by (simp add: cellAt_def)
qed

lemma extract_lengths:
  assumes "grid Q 33 a"
  shows "int (length (extractLeft a)) = 33" "int (length (extractRight a)) = 33"
  using assms by (simp_all add: extractLeft_def extractRight_def grid_def)

text \<open>One request keeps the seams.\<close>

lemma addTerrainChunk_seams:
  assumes ok: "chunks_ok w" "seams_ok w" and run: "addTerrainChunk str rnd x0 y0 w = Inr w'"
  shows "chunks_ok w' \<and> seams_ok w'"
proof (cases "chunkHeights w (x0, y0)")
  case (Some h)
  then have "addTerrainChunk str rnd x0 y0 w = Inr w" by (simp add: addTerrainChunk_present)
  with run ok show ?thesis by simp
next
  case None
  let ?c = "neighborEdges w x0 y0"
  from addTerrainChunk_absent [OF None, of str rnd] run
  obtain sm m n where m: "grid (\<lambda>c. True) 33 m"
      "\<forall>q. in_range 33 q \<longrightarrow> cellAt m q = forced ?c 32 sm q"
      "w' = w\<lparr>chunkHeights := (chunkHeights w)((x0, y0) \<mapsto> m), drawn := n,
               meshes := meshes w @ [(x0, y0)]\<rparr>"
    by auto
  have st: "chunkHeights w' k = (if k = (x0, y0) then Some m else chunkHeights w k)" for k
    by (simp add: m(3))
  have c: "chunks_ok w'"
    using ok(1) m(1) unfolding chunks_ok_def st by (metis option.inject)
  have old: "grid (\<lambda>c. True) 33 h" if "chunkHeights w k = Some h" for k h
    using ok(1) that unfolding chunks_ok_def by blast
  have N: "(33::int) = 32 + 1" "(1::int) \<le> 32" "(0::int) \<le> 32" by simp_all
  have "seams_ok w'"
    unfolding seams_ok_def
  proof (intro allI impI conjI)
    fix x y a b
    assume a: "chunkHeights w' (x, y) = Some a" and b: "chunkHeights w' (x + 1, y) = Some b"
    consider (new_a) "(x, y) = (x0, y0)" | (new_b) "(x + 1, y) = (x0, y0)"
      | (old) "(x, y) \<noteq> (x0, y0)" "(x + 1, y) \<noteq> (x0, y0)" by blast
    then show "extractLeft b = extractRight a"
    proof cases
      case new_a
      with a b have am: "a = m" and bo: "chunkHeights w (x0 + 1, y0) = Some b"
        by (auto simp: st)
      then have r: "c_right ?c = Some (extractLeft b)" by (simp add: neighborEdges_def)
      have "extractRight m = extractLeft b"
        by (rule extractRight_forced [OF m(1,2) N(1,3) r extract_lengths(1) [OF old [OF bo]]])
      with am show ?thesis by simp
    next
      case new_b
      with a b have bm: "b = m" and ao: "chunkHeights w (x0 - 1, y0) = Some a"
        by (auto simp: st)
      then have l: "c_left ?c = Some (extractRight a)" by (simp add: neighborEdges_def)
      have "extractLeft m = extractRight a"
        by (rule extractLeft_forced [OF m(1,2) N(1,2) l extract_lengths(2) [OF old [OF ao]]])
      with bm show ?thesis by simp
    next
      case old
      with a b have "chunkHeights w (x, y) = Some a" "chunkHeights w (x + 1, y) = Some b"
        by (auto simp: st split: if_splits)
      with ok(2) show ?thesis unfolding seams_ok_def by blast
    qed
  next
    fix x y a t j
    assume a: "chunkHeights w' (x, y) = Some a" and t: "chunkHeights w' (x, y + 1) = Some t"
      and j: "0 < j \<and> j < (32::int)"
    then have jr: "in_range 33 (0, j)" "in_range 33 (32, j)" by (simp_all add: in_range_def)
    consider (new_a) "(x, y) = (x0, y0)" | (new_t) "(x, y + 1) = (x0, y0)"
      | (old) "(x, y) \<noteq> (x0, y0)" "(x, y + 1) \<noteq> (x0, y0)" by blast
    then show "cellAt a (0, j) = cellAt t (32, j)"
    proof cases
      case new_a
      with a t have am: "a = m" and to: "chunkHeights w (x0, y0 + 1) = Some t"
        by (auto simp: st)
      from to have "c_top ?c = Some (t ! 32)"
        by (simp add: neighborEdges_def extractBottom_grid(1) [OF old [OF to]])
      with m(2) jr(1) j have "cellAt m (0, j) = elem (t ! 32) j" by (simp add: forced_def)
      with am show ?thesis by (simp add: extractBottom_grid(2) [OF old [OF to]])
    next
      case new_t
      with a t have tm: "t = m" and ao: "chunkHeights w (x0, y0 - 1) = Some a"
        by (auto simp: st)
      from ao have "c_bottom ?c = Some (a ! 0)"
        by (simp add: neighborEdges_def extractTop_grid(1) [OF old [OF ao]])
      with m(2) jr(2) j have "cellAt m (32, j) = elem (a ! 0) j" by (simp add: forced_def)
      with tm show ?thesis by (simp add: extractTop_grid(2) [OF old [OF ao]])
    next
      case old
      with a t have "chunkHeights w (x, y) = Some a" "chunkHeights w (x, y + 1) = Some t"
        by (auto simp: st split: if_splits)
      with ok(2) j show ?thesis unfolding seams_ok_def by blast
    qed
  qed
  with c show ?thesis by simp
qed

lemma reachable_seams: "reachable str rnd w \<Longrightarrow> chunks_ok w \<and> seams_ok w"
proof (induction rule: reachable.induct)
  case (start n)
  show ?case by (simp add: chunks_ok_def seams_ok_def)
next
  case (step w x y w')
  then show ?case using addTerrainChunk_seams by blast
qed

text \<open>An array of zeros.\<close>

lemma grid_zero:
  assumes "grid (\<lambda>c. c = Some 0) N m"
  shows "m = replicate (nat N) (replicate (nat N) (Some 0))"
proof -
  have r: "r = replicate (nat N) (Some 0)" if "r \<in> set m" for r
  proof -
    from that assms have "length r = nat N" "\<forall>c \<in> set r. c = Some 0" by (auto simp: grid_def)
    then show ?thesis by (metis replicate_eqI)
  qed
  from assms have "length m = nat N" by (auto simp: grid_def)
  with r show ?thesis by (metis replicate_eqI)
qed

section \<open>A map with one low corner\<close>

lemma nonpos_iff: "nonpos c \<longleftrightarrow> (\<exists>v. c = Some v \<and> v \<le> 0)"
  by (cases c) (simp_all add: nonpos_def)

lemma neg_iff: "neg c \<longleftrightarrow> (\<exists>v. c = Some v \<and> v < 0)"
  by (cases c) (simp_all add: neg_def)

lemma nonpos_Some [simp]: "nonpos (Some v) \<longleftrightarrow> v \<le> 0"
  by (simp add: nonpos_def)

lemma neg_Some [simp]: "neg (Some v) \<longleftrightarrow> v < 0"
  by (simp add: neg_def)

lemma foldl_nonpos: "a \<le> 0 \<Longrightarrow> \<forall>v \<in> set vs. v \<le> 0 \<Longrightarrow> foldl (+) (a::real) vs \<le> 0"
  by (induction vs arbitrary: a) simp_all

lemma foldl_neg: "a \<le> 0 \<Longrightarrow> \<forall>v \<in> set vs. v \<le> 0 \<Longrightarrow> a < 0 \<or> (\<exists>v \<in> set vs. v < 0)
    \<Longrightarrow> foldl (+) (a::real) vs < 0"
proof (induction vs arbitrary: a)
  case Nil
  then show ?case by simp
next
  case (Cons w ws)
  have "a + w \<le> 0" using Cons.prems(1,2) by simp
  moreover have "\<forall>v \<in> set ws. v \<le> 0" using Cons.prems(2) by simp
  moreover have "a + w < 0 \<or> (\<exists>v \<in> set ws. v < 0)" using Cons.prems by auto
  ultimately have "foldl (+) (a + w) ws < 0" by (rule Cons.IH)
  then show ?case by simp
qed

lemma average_nonpos:
  assumes "\<forall>c \<in> set cs. c \<noteq> None \<longrightarrow> nonpos c" "\<exists>c \<in> set cs. nonpos c"
  shows "nonpos (average cs)"
proof -
  have z: "\<forall>v \<in> set (filterUndefined cs). v \<le> 0"
    using assms(1) by (auto simp: filterUndefined_set nonpos_iff)
  from assms(2) have ne: "filterUndefined cs \<noteq> []"
    using filterUndefined_set [of cs] by (auto simp: nonpos_iff simp flip: set_empty)
  have "foldl (+) 0 (filterUndefined cs) \<le> 0" using z by (intro foldl_nonpos) simp_all
  then have "foldl (+) 0 (filterUndefined cs) / real (length (filterUndefined cs)) \<le> 0"
    by (simp add: divide_nonpos_nonneg)
  with ne show ?thesis by (simp add: average_def Let_def)
qed

lemma average_neg:
  assumes "\<forall>c \<in> set cs. c \<noteq> None \<longrightarrow> nonpos c" "v0 \<in> set cs" "neg v0"
  shows "neg (average cs)"
proof -
  have z: "\<forall>v \<in> set (filterUndefined cs). v \<le> 0"
    using assms(1) by (auto simp: filterUndefined_set nonpos_iff)
  from assms(2,3) have ex: "\<exists>v \<in> set (filterUndefined cs). v < 0"
    by (auto simp: filterUndefined_set neg_iff)
  then have ne: "filterUndefined cs \<noteq> []" by auto
  have "foldl (+) 0 (filterUndefined cs) < 0" using z ex by (intro foldl_neg) simp_all
  moreover have "0 < real (length (filterUndefined cs))" using ne by simp
  ultimately have "foldl (+) 0 (filterUndefined cs) / real (length (filterUndefined cs)) < 0"
    by (simp add: divide_neg_pos)
  with ne show ?thesis by (simp add: average_def Let_def)
qed

lemma plus_cell_half: "plus_cell (rand (1 / 2) scl) a = a"
  by (cases a) (simp_all add: plus_cell_def rand_def)

lemma value_ok_nonpos: "value_ok str (\<lambda>k. 1 / 2) nonpos"
  unfolding value_ok_def
proof (intro conjI allI impI)
  show "nonpos (Some 0)" by simp
next
  fix n :: nat and scl
  show "nonpos (Some (rand (1 / 2) scl))" by (simp add: rand_def)
next
  fix cs :: "cell list" and n :: nat and scl
  assume "\<forall>c \<in> set cs. c \<noteq> None \<longrightarrow> nonpos c" "\<exists>c \<in> set cs. nonpos c"
  then show "nonpos (plus_cell (rand (1 / 2) scl) (average cs))"
    unfolding plus_cell_half by (rule average_nonpos)
next
  fix cs :: "cell list"
  assume a: "cs \<noteq> []" "\<forall>c \<in> set cs. nonpos c"
  let ?a = "sort_str str (filterUndefined cs)"
  have z: "\<forall>v \<in> set ?a. v \<le> 0" using a(2) by (auto simp: set_sort_str filterUndefined_set nonpos_iff)
  have "\<forall>c \<in> set cs. c \<noteq> None" using a(2) by (auto simp: nonpos_iff)
  then have len: "length ?a = length cs" by (simp add: length_sort_str filterUndefined_length)
  with a(1) have pos: "0 < length ?a" by simp
  have nz: "\<And>i. i < length ?a \<Longrightarrow> ?a ! i \<le> 0" using z by simp
  have "(length ?a - 1) div 2 < length ?a" "length ?a div 2 - 1 < length ?a"
      "length ?a div 2 < length ?a"
    using pos by arith+
  then have "?a ! ((length ?a - 1) div 2) \<le> 0" "?a ! (length ?a div 2 - 1) \<le> 0"
      "?a ! (length ?a div 2) \<le> 0"
    by (simp_all only: nz)
  moreover from this
  have "(?a ! (length ?a div 2 - 1) + ?a ! (length ?a div 2)) / 2 \<le> 0" by simp
  ultimately show "nonpos (median str cs)" using pos by (simp add: median_def Let_def)
next
  fix b :: "cell list"
  assume b: "length b = 9" "\<forall>c \<in> set b. nonpos c"
  have "\<forall>c \<in> set b. c \<noteq> None" using b(2) by (auto simp: nonpos_iff)
  then have l: "4 < length (sort (filterUndefined b))" using b(1) by (simp add: filterUndefined_length)
  moreover have "\<forall>v \<in> set (sort (filterUndefined b)). v \<le> 0"
    using b(2) by (auto simp: filterUndefined_set nonpos_iff)
  ultimately have "sort (filterUndefined b) ! 4 \<le> 0" by (metis nth_mem)
  then show "nonpos (f32sort b ! 4)"
    using l by (simp add: f32sort_def nth_append)
qed

lemma cons_ok_free: "cons_ok Q N free"
  by (simp add: cons_ok_def edge_ok_def free_def)

lemma wr_other:
  assumes "grid Q N m" "in_range N (x, y)" "wr m x y v = Inr m'" "in_range N q"
  shows "cellAt m' q = (if q = (x, y) then v else cellAt m q)"
  using wr_cellAt [OF assms(1,2), of v] assms(3,4) by (cases q) auto

lemma squareStep_Inr:
  "squareStep rnd mx scl half y x s = Inr s' \<Longrightarrow>
     \<exists>a. square (fst s) mx x y half = Inr a \<and>
         wr (fst s) x y (plus_cell (rand (rnd (snd s)) scl) a) = Inr (fst s') \<and>
         snd s' = Suc (snd s)"
  by (auto simp: squareStep_def bindE_eq_Inr)

lemma diamondStep_Inr:
  "diamondStep rnd mx free scl half y x s = Inr s' \<Longrightarrow>
     \<exists>a. diamond (fst s) mx x y half = Inr a \<and>
         wr (fst s) x y (plus_cell (rand (rnd (snd s)) scl) a) = Inr (fst s') \<and>
         snd s' = Suc (snd s)"
  by (auto simp: diamondStep_def free_def bindE_eq_Inr)

lemma squareStep_from:
  "rnd (snd s) = rnd' (snd s) \<Longrightarrow>
     squareStep rnd mx scl half y x s = squareStep rnd' mx scl half y x s"
  by (simp add: squareStep_def cong del: bindE_weak_cong)

lemma diamondStep_from:
  "rnd (snd s) = rnd' (snd s) \<Longrightarrow>
     diamondStep rnd mx c scl half y x s = diamondStep rnd' mx c scl half y x s"
  by (simp add: diamondStep_def cong del: bindE_weak_cong)

lemma squareStep_kept:
  assumes k: "kept Q N v0 s" and v: "value_ok str (\<lambda>k. 1 / 2) Q" and N: "N = mx + 1"
    and b: "0 < half" "half \<le> x" "x + half \<le> mx" "half \<le> y" "y \<le> mx"
  shows "\<exists>s'. squareStep lowFirst mx scl half y x s = Inr s' \<and> kept Q N v0 s'"
proof -
  from k have g: "grid Q N (fst s)" and c: "cellAt (fst s) (0, 0) = v0" and n: "1 \<le> snd s"
    by (simp_all add: kept_def)
  from n have r: "lowFirst (snd s) = (\<lambda>k. 1 / 2) (snd s)" by (simp add: lowFirst_def)
  from squareStep_grid [OF g v N b, of scl]
  obtain s' where s': "squareStep (\<lambda>k. 1 / 2) mx scl half y x s = Inr s'" "grid Q N (fst s')"
    by blast
  from s'(1) have e: "squareStep lowFirst mx scl half y x s = Inr s'"
    using squareStep_from [of lowFirst s "\<lambda>k. 1 / 2" mx scl half y x] r by simp
  from squareStep_Inr [OF e] obtain a where
    a: "wr (fst s) x y (plus_cell (rand (lowFirst (snd s)) scl) a) = Inr (fst s')"
      "snd s' = Suc (snd s)" by blast
  have ir: "in_range N (x, y)" "in_range N (0, 0)" using N b by (simp_all add: in_range_def)
  from wr_other [OF g ir(1) a(1) ir(2)] b have "cellAt (fst s') (0, 0) = cellAt (fst s) (0, 0)"
    by auto
  with c s'(2) a(2) e show ?thesis by (simp add: kept_def)
qed

lemma diamondStep_kept:
  assumes k: "kept Q N v0 s" and v: "value_ok str (\<lambda>k. 1 / 2) Q" and N: "N = mx + 1"
    and b: "0 < half" "2 * half \<le> mx" "0 \<le> x" "x \<le> mx" "0 \<le> y" "y \<le> mx"
    and o: "(x, y) \<noteq> (0, 0)"
  shows "\<exists>s' a. diamondStep lowFirst mx free scl half y x s = Inr s' \<and> kept Q N v0 s' \<and>
           diamond (fst s) mx x y half = Inr a \<and>
           (\<forall>q. in_range N q \<longrightarrow> cellAt (fst s') q = (if q = (x, y) then a else cellAt (fst s) q))"
proof -
  from k have g: "grid Q N (fst s)" and c: "cellAt (fst s) (0, 0) = v0" and n: "1 \<le> snd s"
    by (simp_all add: kept_def)
  from n have r: "lowFirst (snd s) = (\<lambda>k. 1 / 2) (snd s)" by (simp add: lowFirst_def)
  from diamondStep_grid [OF g v N cons_ok_free b, of scl]
  obtain s' where s': "diamondStep (\<lambda>k. 1 / 2) mx free scl half y x s = Inr s'" "grid Q N (fst s')"
    by blast
  from s'(1) have e: "diamondStep lowFirst mx free scl half y x s = Inr s'"
    using diamondStep_from [of lowFirst s "\<lambda>k. 1 / 2" mx free scl half y x] r by simp
  from diamondStep_Inr [OF e] obtain a where
    a: "diamond (fst s) mx x y half = Inr a"
      "wr (fst s) x y (plus_cell (rand (lowFirst (snd s)) scl) a) = Inr (fst s')"
      "snd s' = Suc (snd s)" by blast
  have w: "plus_cell (rand (lowFirst (snd s)) scl) a = a" by (simp only: r plus_cell_half)
  have ir: "in_range N (x, y)" "in_range N (0, 0)" using N b by (simp_all add: in_range_def)
  have cells: "\<forall>q. in_range N q \<longrightarrow> cellAt (fst s') q = (if q = (x, y) then a else cellAt (fst s) q)"
    using wr_other [OF g ir(1) a(2)] unfolding w by blast
  with ir(2) o have "cellAt (fst s') (0, 0) = cellAt (fst s) (0, 0)" by auto
  with c s'(2) a(3) have "kept Q N v0 s'" by (simp add: kept_def)
  with e a(1) cells show ?thesis by blast
qed


text \<open>
  From the second random value on \<^verbatim>\<open>rand\<close> is 0, so every step of \<^verbatim>\<open>divide\<close> stores
  the average it read; none of them writes the cell \<open>(0, 0)\<close>.
\<close>

lemma square_loop_kept:
  assumes k: "kept Q N v0 s" and v: "value_ok str (\<lambda>k. 1 / 2) Q" and N: "N = mx + 1"
    and b: "0 < half" "2 * half dvd mx"
  shows "\<exists>s'. foldE (\<lambda>y. foldE (squareStep lowFirst mx scl half y) (upto_by half mx (2 * half)))
                 (upto_by half mx (2 * half)) s = Inr s' \<and> kept Q N v0 s'"
proof (rule foldE_inv [where I = "kept Q N v0", OF k])
  fix y and t :: gen_state
  assume y: "y \<in> set (upto_by half mx (2 * half))" and t: "kept Q N v0 t"
  from square_index [OF y b(2,1)] have yb: "half \<le> y" "y \<le> mx" using b(1) by simp_all
  show "\<exists>t'. foldE (squareStep lowFirst mx scl half y) (upto_by half mx (2 * half)) t = Inr t'
           \<and> kept Q N v0 t'"
  proof (rule foldE_inv [where I = "kept Q N v0", OF t])
    fix x and u :: gen_state
    assume x: "x \<in> set (upto_by half mx (2 * half))" and u: "kept Q N v0 u"
    from square_index [OF x b(2,1)] have "half \<le> x" "x + half \<le> mx" by simp_all
    then show "\<exists>u'. squareStep lowFirst mx scl half y x u = Inr u' \<and> kept Q N v0 u'"
      using yb b(1) by (intro squareStep_kept [OF u v N]) simp_all
  qed
qed

lemma diamond_loop_kept:
  assumes k: "kept Q N v0 s" and v: "value_ok str (\<lambda>k. 1 / 2) Q" and N: "N = mx + 1"
    and b: "0 < half" "2 * half \<le> mx"
  shows "\<exists>s'. foldE (\<lambda>y. foldE (diamondStep lowFirst mx free scl half y)
                           (upto_by ((y + half) mod (2 * half)) (mx + 1) (2 * half)))
                 (upto_by 0 (mx + 1) half) s = Inr s' \<and> kept Q N v0 s'"
proof (rule foldE_inv [where I = "kept Q N v0", OF k])
  fix y and t :: gen_state
  assume y: "y \<in> set (upto_by 0 (mx + 1) half)" and t: "kept Q N v0 t"
  from upto_by_set [OF y] have yb: "0 \<le> y" "y \<le> mx" by simp_all
  show "\<exists>t'. foldE (diamondStep lowFirst mx free scl half y)
               (upto_by ((y + half) mod (2 * half)) (mx + 1) (2 * half)) t = Inr t'
           \<and> kept Q N v0 t'"
  proof (rule foldE_inv [where I = "kept Q N v0", OF t])
    fix x and u :: gen_state
    assume x: "x \<in> set (upto_by ((y + half) mod (2 * half)) (mx + 1) (2 * half))"
      and u: "kept Q N v0 u"
    have m0: "0 \<le> (y + half) mod (2 * half)" using b(1) by simp
    from upto_by_set [OF x] have h: "(y + half) mod (2 * half) \<le> x" "x < mx + 1" by simp_all
    have x0: "0 \<le> x" using m0 h(1) by (rule order_trans)
    have x1: "x \<le> mx" using h(2) by simp
    have o: "(x, y) \<noteq> (0, 0)"
    proof
      assume "(x, y) = (0, 0)"
      then have "x = 0" "y = 0" by simp_all
      with h(1) have "half mod (2 * half) \<le> 0" by simp
      moreover have "half mod (2 * half) = half" using b(1) by simp
      ultimately show False using b(1) by simp
    qed
    from diamondStep_kept [OF u v N b x0 x1 yb o, of scl]
    show "\<exists>u'. diamondStep lowFirst mx free scl half y x u = Inr u' \<and> kept Q N v0 u'"
      by blast
  qed
qed

text \<open>
  At the last level the cells \<open>(1, 0)\<close> and \<open>(0, 1)\<close> are averages that read the cell
  \<open>(0, 0)\<close>.
\<close>

lemma diamond_origin:
  assumes g: "grid Q N m" and N: "N = mx + 1" "2 \<le> mx"
    and p: "(x, y) = (1, 0) \<or> (x, y) = (0, 1)"
    and d: "diamond m mx x y 1 = Inr a"
    and P: "\<And>cs. \<forall>c \<in> set cs. c \<noteq> None \<longrightarrow> Q c \<Longrightarrow> cellAt m (0, 0) \<in> set cs \<Longrightarrow> P (average cs)"
  shows "P a"
proof -
  from g have len: "int (length m) = N" by (simp add: grid_def)
  have av: "averageAt m ps = Inr a \<Longrightarrow> \<forall>p \<in> set ps. 0 \<le> fst p \<and> fst p < N \<Longrightarrow> (0, 0) \<in> set ps
      \<Longrightarrow> P a" for ps
  proof -
    assume a: "averageAt m ps = Inr a" and rows: "\<forall>p \<in> set ps. 0 \<le> fst p \<and> fst p < N"
      and o: "(0, 0) \<in> set ps"
    from rows len have r: "reads m ps = Inr (map (cellAt m) ps)"
      by (intro reads_rows) simp
    with a have e: "a = average (map (cellAt m) ps)" by (simp add: averageAt_def)
    have "\<forall>c \<in> set (map (cellAt m) ps). c \<noteq> None \<longrightarrow> Q c"
      using cellAt_grid(1) [OF g] rows by auto
    moreover have "cellAt m (0, 0) \<in> set (map (cellAt m) ps)" using o by auto
    ultimately show "P a" unfolding e by (rule P)
  qed
  from p show ?thesis
  proof
    assume "(x, y) = (1, 0)"
    with d N have "averageAt m [(1, - 1), (2, 0), (1, 1), (0, 0)] = Inr a"
      by (simp add: diamond_def)
    then show ?thesis by (rule av) (use N in simp_all)
  next
    assume "(x, y) = (0, 1)"
    with d N have "averageAt m [(0, 0), (1, 1), (0, 2)] = Inr a"
      by (simp add: diamond_def)
    then show ?thesis by (rule av) (use N in simp_all)
  qed
qed

lemma diamondStep_last:
  assumes k: "kept Q N v0 s" and v: "value_ok str (\<lambda>k. 1 / 2) Q" and N: "N = mx + 1" "2 \<le> mx"
    and b: "0 \<le> x" "x \<le> mx" "0 \<le> y" "y \<le> mx" "(x, y) \<noteq> (0, 0)"
    and P: "\<And>cs. \<forall>c \<in> set cs. c \<noteq> None \<longrightarrow> Q c \<Longrightarrow> v0 \<in> set cs \<Longrightarrow> P (average cs)"
    and f: "fa \<longrightarrow> P (cellAt (fst s) (1, 0)) \<or> (x, y) = (1, 0)"
      "fb \<longrightarrow> P (cellAt (fst s) (0, 1)) \<or> (x, y) = (0, 1)"
  shows "\<exists>s'. diamondStep lowFirst mx free scl 1 y x s = Inr s' \<and> kept Q N v0 s' \<and>
           (fa \<longrightarrow> P (cellAt (fst s') (1, 0))) \<and> (fb \<longrightarrow> P (cellAt (fst s') (0, 1)))"
proof -
  from k have g: "grid Q N (fst s)" and c: "cellAt (fst s) (0, 0) = v0"
    by (simp_all add: kept_def)
  have h: "(0::int) < 1" "2 * 1 \<le> mx" using N by simp_all
  from diamondStep_kept [OF k v N(1) h b, of scl]
  obtain s' a where s': "diamondStep lowFirst mx free scl 1 y x s = Inr s'" "kept Q N v0 s'"
      "diamond (fst s) mx x y 1 = Inr a"
      "\<forall>q. in_range N q \<longrightarrow> cellAt (fst s') q = (if q = (x, y) then a else cellAt (fst s) q)"
    by blast
  have Pa: "P a" if "(x, y) = (1, 0) \<or> (x, y) = (0, 1)"
    using g N that s'(3) by (rule diamond_origin) (simp add: c P)
  have ir: "in_range N (1, 0)" "in_range N (0, 1)" using N by (simp_all add: in_range_def)
  from s'(4) ir have c1: "cellAt (fst s') (1, 0) = (if (1, 0) = (x, y) then a else cellAt (fst s) (1, 0))"
    and c2: "cellAt (fst s') (0, 1) = (if (0, 1) = (x, y) then a else cellAt (fst s) (0, 1))"
    by blast+
  have "fa \<longrightarrow> P (cellAt (fst s') (1, 0))" unfolding c1 using f(1) Pa by auto
  moreover have "fb \<longrightarrow> P (cellAt (fst s') (0, 1))" unfolding c2 using f(2) Pa by auto
  ultimately show ?thesis using s'(1,2) by blast
qed

lemma diamond_tail_last:
  assumes i: "kept Q N v0 s" "fa \<longrightarrow> P (cellAt (fst s) (1, 0))" "fb \<longrightarrow> P (cellAt (fst s) (0, 1))"
    and v: "value_ok str (\<lambda>k. 1 / 2) Q" and N: "N = mx + 1" "2 \<le> mx"
    and P: "\<And>cs. \<forall>c \<in> set cs. c \<noteq> None \<longrightarrow> Q c \<Longrightarrow> v0 \<in> set cs \<Longrightarrow> P (average cs)"
    and y: "0 \<le> y" "y \<le> mx"
    and xs: "\<forall>x \<in> set xs. 0 \<le> x \<and> x \<le> mx \<and> (x, y) \<noteq> (0, 0)"
  shows "\<exists>s'. foldE (diamondStep lowFirst mx free scl 1 y) xs s = Inr s' \<and> kept Q N v0 s' \<and>
           (fa \<longrightarrow> P (cellAt (fst s') (1, 0))) \<and> (fb \<longrightarrow> P (cellAt (fst s') (0, 1)))"
proof (rule foldE_inv [where I = "\<lambda>t. kept Q N v0 t \<and>
           (fa \<longrightarrow> P (cellAt (fst t) (1, 0))) \<and> (fb \<longrightarrow> P (cellAt (fst t) (0, 1)))"])
  show "kept Q N v0 s \<and> (fa \<longrightarrow> P (cellAt (fst s) (1, 0))) \<and> (fb \<longrightarrow> P (cellAt (fst s) (0, 1)))"
    using i by simp
next
  fix x and t :: gen_state
  assume x: "x \<in> set xs"
    and t: "kept Q N v0 t \<and> (fa \<longrightarrow> P (cellAt (fst t) (1, 0))) \<and> (fb \<longrightarrow> P (cellAt (fst t) (0, 1)))"
  from x xs have xb: "0 \<le> x" "x \<le> mx" "(x, y) \<noteq> (0, 0)" by auto
  from t have tk: "kept Q N v0 t" and f: "fa \<longrightarrow> P (cellAt (fst t) (1, 0)) \<or> (x, y) = (1, 0)"
      "fb \<longrightarrow> P (cellAt (fst t) (0, 1)) \<or> (x, y) = (0, 1)" by auto
  show "\<exists>t'. diamondStep lowFirst mx free scl 1 y x t = Inr t' \<and> kept Q N v0 t' \<and>
           (fa \<longrightarrow> P (cellAt (fst t') (1, 0))) \<and> (fb \<longrightarrow> P (cellAt (fst t') (0, 1)))"
    by (rule diamondStep_last [where P = P, OF tk v N xb(1,2) y xb(3) P f])
qed


lemma diamond_loop_last:
  assumes k: "kept Q N v0 s" and v: "value_ok str (\<lambda>k. 1 / 2) Q" and N: "N = mx + 1" "2 \<le> mx"
    and P: "\<And>cs. \<forall>c \<in> set cs. c \<noteq> None \<longrightarrow> Q c \<Longrightarrow> v0 \<in> set cs \<Longrightarrow> P (average cs)"
  shows "\<exists>s'. foldE (\<lambda>y. foldE (diamondStep lowFirst mx free scl 1 y)
                           (upto_by ((y + 1) mod 2) (mx + 1) 2))
                 (upto_by 0 (mx + 1) 1) s = Inr s' \<and> kept Q N v0 s' \<and>
           P (cellAt (fst s') (1, 0)) \<and> P (cellAt (fst s') (0, 1))"
proof -
  let ?F = "\<lambda>y. foldE (diamondStep lowFirst mx free scl 1 y) (upto_by ((y + 1) mod 2) (mx + 1) 2)"
  have o1: "upto_by 0 (mx + 1) 1 = 0 # upto_by 1 (mx + 1) 1"
    using N(2) by (simp add: upto_by.simps [of 0 "mx + 1" 1])
  have o2: "upto_by 1 (mx + 1) 1 = 1 # upto_by 2 (mx + 1) 1"
    using N(2) by (simp add: upto_by.simps [of 1 "mx + 1" 1])
  have i0: "upto_by 1 (mx + 1) 2 = 1 # upto_by 3 (mx + 1) 2"
    using N(2) by (simp add: upto_by.simps [of 1 "mx + 1" 2])
  have i1: "upto_by 0 (mx + 1) 2 = 0 # upto_by 2 (mx + 1) 2"
    using N(2) by (simp add: upto_by.simps [of 0 "mx + 1" 2])
  have b0: "(0::int) \<le> 1" "1 \<le> mx" "(0::int) \<le> 0" "0 \<le> mx" "((1::int), (0::int)) \<noteq> (0, 0)"
    using N(2) by simp_all
  have b1: "(0::int) \<le> 0" "0 \<le> mx" "(0::int) \<le> 1" "1 \<le> mx" "((0::int), (1::int)) \<noteq> (0, 0)"
    using N(2) by simp_all
  from diamondStep_last [where P = P and fa = True and fb = False and scl = scl, OF k v N b0 P]
  obtain t1 where t1: "diamondStep lowFirst mx free scl 1 0 1 s = Inr t1" "kept Q N v0 t1"
      "P (cellAt (fst t1) (1, 0))" by auto
  have "\<exists>u. foldE (diamondStep lowFirst mx free scl 1 0) (upto_by 3 (mx + 1) 2) t1 = Inr u \<and>
          kept Q N v0 u \<and> (True \<longrightarrow> P (cellAt (fst u) (1, 0))) \<and> (False \<longrightarrow> P (cellAt (fst u) (0, 1)))"
  proof (rule diamond_tail_last [where P = P, OF t1(2) _ _ v N P b0(3,4)])
    show "True \<longrightarrow> P (cellAt (fst t1) (1, 0))" using t1(3) by simp
    show "False \<longrightarrow> P (cellAt (fst t1) (0, 1))" by simp
    show "\<forall>x \<in> set (upto_by 3 (mx + 1) 2). 0 \<le> x \<and> x \<le> mx \<and> (x, 0) \<noteq> (0, 0)"
      using upto_by_set [of _ 3 "mx + 1" 2] by fastforce
  qed
  then obtain u1 where u1: "foldE (diamondStep lowFirst mx free scl 1 0) (upto_by 3 (mx + 1) 2) t1 = Inr u1"
      "kept Q N v0 u1" "P (cellAt (fst u1) (1, 0))" by auto
  have a: "?F 0 s = Inr u1" using t1(1) u1(1) by (simp add: i0)
  from diamondStep_last [where P = P and fa = True and fb = True and scl = scl, OF u1(2) v N b1 P] u1(3)
  obtain t2 where t2: "diamondStep lowFirst mx free scl 1 1 0 u1 = Inr t2" "kept Q N v0 t2"
      "P (cellAt (fst t2) (1, 0))" "P (cellAt (fst t2) (0, 1))" by auto
  have "\<exists>u. foldE (diamondStep lowFirst mx free scl 1 1) (upto_by 2 (mx + 1) 2) t2 = Inr u \<and>
          kept Q N v0 u \<and> (True \<longrightarrow> P (cellAt (fst u) (1, 0))) \<and> (True \<longrightarrow> P (cellAt (fst u) (0, 1)))"
  proof (rule diamond_tail_last [where P = P, OF t2(2) _ _ v N P b1(3,4)])
    show "True \<longrightarrow> P (cellAt (fst t2) (1, 0))" using t2(3) by simp
    show "True \<longrightarrow> P (cellAt (fst t2) (0, 1))" using t2(4) by simp
    show "\<forall>x \<in> set (upto_by 2 (mx + 1) 2). 0 \<le> x \<and> x \<le> mx \<and> (x, 1) \<noteq> (0, 0)"
      using upto_by_set [of _ 2 "mx + 1" 2] by fastforce
  qed
  then obtain u2 where u2: "foldE (diamondStep lowFirst mx free scl 1 1) (upto_by 2 (mx + 1) 2) t2 = Inr u2"
      "kept Q N v0 u2" "P (cellAt (fst u2) (1, 0))" "P (cellAt (fst u2) (0, 1))" by auto
  have b: "?F 1 u1 = Inr u2" using t2(1) u2(1) by (simp add: i1)
  have "\<exists>s'. foldE ?F (upto_by 2 (mx + 1) 1) u2 = Inr s' \<and>
          (kept Q N v0 s' \<and> (True \<longrightarrow> P (cellAt (fst s') (1, 0))) \<and> (True \<longrightarrow> P (cellAt (fst s') (0, 1))))"
  proof (rule foldE_inv [where I = "\<lambda>t. kept Q N v0 t \<and>
           (True \<longrightarrow> P (cellAt (fst t) (1, 0))) \<and> (True \<longrightarrow> P (cellAt (fst t) (0, 1)))"])
    show "kept Q N v0 u2 \<and> (True \<longrightarrow> P (cellAt (fst u2) (1, 0))) \<and> (True \<longrightarrow> P (cellAt (fst u2) (0, 1)))"
      using u2 by simp
  next
    fix y and t :: gen_state
    assume y: "y \<in> set (upto_by 2 (mx + 1) 1)"
      and t: "kept Q N v0 t \<and> (True \<longrightarrow> P (cellAt (fst t) (1, 0))) \<and> (True \<longrightarrow> P (cellAt (fst t) (0, 1)))"
    from upto_by_set [OF y] have yb: "2 \<le> y" "0 \<le> y" "y \<le> mx" by simp_all
    have xs: "\<forall>x \<in> set (upto_by ((y + 1) mod 2) (mx + 1) 2). 0 \<le> x \<and> x \<le> mx \<and> (x, y) \<noteq> (0, 0)"
    proof
      fix x assume "x \<in> set (upto_by ((y + 1) mod 2) (mx + 1) 2)"
      from upto_by_set [OF this] have "(y + 1) mod 2 \<le> x" "x < mx + 1" by simp_all
      moreover have "0 \<le> (y + 1) mod 2" by simp
      ultimately show "0 \<le> x \<and> x \<le> mx \<and> (x, y) \<noteq> (0, 0)" using yb(1) by auto
    qed
    from t have tk: "kept Q N v0 t" and t1: "True \<longrightarrow> P (cellAt (fst t) (1, 0))"
      and t2: "True \<longrightarrow> P (cellAt (fst t) (0, 1))" by simp_all
    show "\<exists>t'. ?F y t = Inr t' \<and>
            (kept Q N v0 t' \<and> (True \<longrightarrow> P (cellAt (fst t') (1, 0))) \<and> (True \<longrightarrow> P (cellAt (fst t') (0, 1))))"
      by (rule diamond_tail_last [where P = P, OF tk t1 t2 v N P yb(2,3) xs])
  qed
  then obtain s3 where s3: "foldE ?F (upto_by 2 (mx + 1) 1) u2 = Inr s3" "kept Q N v0 s3"
      "P (cellAt (fst s3) (1, 0))" "P (cellAt (fst s3) (0, 1))" by auto
  have "foldE ?F (upto_by 0 (mx + 1) 1) s = Inr s3"
    unfolding o1 o2 using a b s3(1) by simp
  with s3(2,3,4) show ?thesis by blast
qed

lemma divide_unfold:
  assumes h: "0 < half"
    and "foldE (\<lambda>y. foldE (squareStep rnd mx (roughness * real_of_int (2 * half)) half y)
                       (upto_by half mx (2 * half))) (upto_by half mx (2 * half)) s = Inr s1"
    and "foldE (\<lambda>y. foldE (diamondStep rnd mx c (roughness * real_of_int (2 * half)) half y)
                       (upto_by ((y + half) mod (2 * half)) (mx + 1) (2 * half)))
           (upto_by 0 (mx + 1) half) s1 = Inr s2"
  shows "divide rnd roughness mx c (2 * half) s = divide rnd roughness mx c half s2"
proof -
  from h have ge2: "\<not> 2 * half < 2" by simp
  have ev: "\<not> odd (2 * half)" by simp
  have hf: "2 * half div 2 = half" by simp
  show ?thesis
    apply (subst divide.simps [of rnd roughness mx c "2 * half" s])
    apply (simp only: ge2 ev hf if_False)
    using assms(2,3) by simp
qed

lemma divide_near:
  assumes v: "value_ok str (\<lambda>k. 1 / 2) Q" and N: "N = mx + 1" and mx: "mx = 2 ^ d"
    and P: "\<And>cs. \<forall>c \<in> set cs. c \<noteq> None \<longrightarrow> Q c \<Longrightarrow> v0 \<in> set cs \<Longrightarrow> P (average cs)"
  shows "kept Q N v0 s \<Longrightarrow> Suc k \<le> d \<Longrightarrow>
         \<exists>s'. divide lowFirst roughness mx free (2 * 2 ^ k) s = Inr s' \<and> kept Q N v0 s' \<and>
           P (cellAt (fst s') (1, 0)) \<and> P (cellAt (fst s') (0, 1))"
proof (induction k arbitrary: s)
  case 0
  have dv: "(2::int) * 1 dvd mx"
    using "0.prems"(2) unfolding mx by (cases d) simp_all
  then have le: "2 \<le> mx" using mx by (intro zdvd_imp_le) simp_all
  from square_loop_kept [OF "0.prems"(1) v N _ dv, of "roughness * real_of_int (2 * 1)"]
  obtain s1 where s1: "foldE (\<lambda>y. foldE (squareStep lowFirst mx (roughness * real_of_int (2 * 1)) 1 y)
        (upto_by 1 mx (2 * 1))) (upto_by 1 mx (2 * 1)) s = Inr s1" "kept Q N v0 s1"
    by auto
  from diamond_loop_last [where P = P and scl = "roughness * real_of_int (2 * 1)", OF s1(2) v N le P]
  obtain s2 where s2: "foldE (\<lambda>y. foldE (diamondStep lowFirst mx free (roughness * real_of_int (2 * 1)) 1 y)
        (upto_by ((y + 1) mod 2) (mx + 1) 2)) (upto_by 0 (mx + 1) 1) s1 = Inr s2"
      "kept Q N v0 s2" "P (cellAt (fst s2) (1, 0))" "P (cellAt (fst s2) (0, 1))"
    by auto
  have "divide lowFirst roughness mx free (2 * 1) s = divide lowFirst roughness mx free 1 s2"
    using s1(1) s2(1) by (intro divide_unfold) simp_all
  moreover have "divide lowFirst roughness mx free 1 s2 = Inr s2"
    by (subst divide.simps) simp
  ultimately have "divide lowFirst roughness mx free (2 * 2 ^ 0) s = Inr s2" by simp
  with s2(2,3,4) show ?case by blast
next
  case (Suc k)
  let ?half = "(2::int) * 2 ^ k"
  have half: "0 < ?half" by simp
  have "(2::int) ^ Suc (Suc k) dvd 2 ^ d"
    using Suc.prems(2) by (intro le_imp_power_dvd)
  then have dv: "2 * ?half dvd mx" unfolding mx by simp
  then have le: "2 * ?half \<le> mx" using mx by (intro zdvd_imp_le) simp_all
  from square_loop_kept [OF Suc.prems(1) v N half dv, of "roughness * real_of_int (2 * ?half)"]
  obtain s1 where s1: "foldE (\<lambda>y. foldE (squareStep lowFirst mx (roughness * real_of_int (2 * ?half)) ?half y)
        (upto_by ?half mx (2 * ?half))) (upto_by ?half mx (2 * ?half)) s = Inr s1" "kept Q N v0 s1"
    by blast
  from diamond_loop_kept [OF s1(2) v N half le, of "roughness * real_of_int (2 * ?half)"]
  obtain s2 where s2: "foldE (\<lambda>y. foldE (diamondStep lowFirst mx free (roughness * real_of_int (2 * ?half)) ?half y)
        (upto_by ((y + ?half) mod (2 * ?half)) (mx + 1) (2 * ?half)))
        (upto_by 0 (mx + 1) ?half) s1 = Inr s2" "kept Q N v0 s2"
    by blast
  from Suc.IH [OF s2(2)] Suc.prems(2)
  obtain s3 where s3: "divide lowFirst roughness mx free ?half s2 = Inr s3" "kept Q N v0 s3"
      "P (cellAt (fst s3) (1, 0))" "P (cellAt (fst s3) (0, 1))"
    by auto
  have "divide lowFirst roughness mx free (2 * ?half) s = divide lowFirst roughness mx free ?half s2"
    using half s1(1) s2(1) by (rule divide_unfold)
  with s3(1) have "divide lowFirst roughness mx free (2 * 2 ^ Suc k) s = Inr s3" by simp
  with s3(2,3,4) show ?case by blast
qed


lemma seedCell_free:
  assumes g: "grid Q N (fst s)" and r: "in_range N (x, y)"
    and q: "Q (Some (rand (rnd (snd s)) scale))"
  shows "\<exists>s'. seedCell rnd scale x y None i None j s = Inr s' \<and> grid Q N (fst s') \<and>
           snd s' = Suc (snd s) \<and>
           (\<forall>p. in_range N p \<longrightarrow> cellAt (fst s') p =
              (if p = (x, y) then Some (rand (rnd (snd s)) scale) else cellAt (fst s) p))"
proof -
  from r have xr: "0 \<le> x" "x < N" by (simp_all add: in_range_def)
  from wr_grid [OF g xr, of y "Some (rand (rnd (snd s)) scale)"] q
  obtain m' where m': "wr (fst s) x y (Some (rand (rnd (snd s)) scale)) = Inr m'" "grid Q N m'"
    by auto
  have "\<forall>p. in_range N p \<longrightarrow> cellAt m' p =
          (if p = (x, y) then Some (rand (rnd (snd s)) scale) else cellAt (fst s) p)"
    using wr_other [OF g r m'(1)] by blast
  with m' show ?thesis by (simp add: seedCell_def)
qed

lemma seedCorners_kept:
  assumes g: "grid Q N m" and N: "N = mx + 1" "1 \<le> mx"
    and q: "Q (Some 0)" "Q (Some (rand (lowFirst n) scale))"
  shows "\<exists>s'. seedCorners lowFirst scale mx free (m, n) = Inr s' \<and>
           kept Q N (Some (rand (lowFirst n) scale)) s'"
proof -
  have z: "rand (lowFirst (Suc k)) scale = 0" for k by (simp add: lowFirst_def rand_def)
  have ir: "in_range N (0, 0)" "in_range N (mx, 0)" "in_range N (mx, mx)" "in_range N (0, mx)"
    using N by (simp_all add: in_range_def)
  have g0: "grid Q N (fst (m, n))" using g by simp
  have q0: "Q (Some (rand (lowFirst (snd (m, n))) scale))" using q(2) by simp
  from seedCell_free [where rnd = lowFirst and scale = scale and Q = Q and i = 0 and j = 0, OF g0 ir(1) q0]
  obtain s1 where s1: "seedCell lowFirst scale 0 0 None 0 None 0 (m, n) = Inr s1"
      "grid Q N (fst s1)" "snd s1 = Suc n"
      "cellAt (fst s1) (0, 0) = Some (rand (lowFirst n) scale)"
    using ir(1) by auto
  have q1: "Q (Some (rand (lowFirst (snd s1)) scale))" unfolding s1(3) z by (rule q(1))
  from seedCell_free [where rnd = lowFirst and scale = scale and Q = Q and i = 0 and j = mx, OF s1(2) ir(2) q1]
  obtain s2 where s2: "seedCell lowFirst scale mx 0 None 0 None mx s1 = Inr s2"
      "grid Q N (fst s2)" "snd s2 = Suc (snd s1)"
      "cellAt (fst s2) (0, 0) = cellAt (fst s1) (0, 0)"
    using ir(1) N(2) by auto
  have q2: "Q (Some (rand (lowFirst (snd s2)) scale))" unfolding s2(3) z by (rule q(1))
  from seedCell_free [where rnd = lowFirst and scale = scale and Q = Q and i = mx and j = mx, OF s2(2) ir(3) q2]
  obtain s3 where s3: "seedCell lowFirst scale mx mx None mx None mx s2 = Inr s3"
      "grid Q N (fst s3)" "snd s3 = Suc (snd s2)"
      "cellAt (fst s3) (0, 0) = cellAt (fst s2) (0, 0)"
    using ir(1) N(2) by auto
  have q3: "Q (Some (rand (lowFirst (snd s3)) scale))" unfolding s3(3) z by (rule q(1))
  from seedCell_free [where rnd = lowFirst and scale = scale and Q = Q and i = mx and j = 0, OF s3(2) ir(4) q3]
  obtain s4 where s4: "seedCell lowFirst scale 0 mx None mx None 0 s3 = Inr s4"
      "grid Q N (fst s4)" "snd s4 = Suc (snd s3)"
      "cellAt (fst s4) (0, 0) = cellAt (fst s3) (0, 0)"
    using ir(1) N(2) by auto
  have "seedCorners lowFirst scale mx free (m, n) = Inr s4"
    using s1(1) s2(1) s3(1) s4(1) by (simp add: seedCorners_def free_def)
  moreover have "kept Q N (Some (rand (lowFirst n) scale)) s4"
    using s4(2,3,4) s3(4) s2(4) s1(4) by (simp add: kept_def)
  ultimately show ?thesis by blast
qed

section \<open>The corner of the filtered map\<close>

text \<open>
  \<^verbatim>\<open>median3Filter\<close> writes the cell \<open>(0, 0)\<close> once: the median of the four cells of
  the corner.
\<close>

lemma medianStep_cells:
  assumes s: "grid Q N src" and d: "grid (\<lambda>c. True) N dst"
    and t: "in_range N (fst t)" "\<forall>p \<in> set (snd t). 0 \<le> fst p \<and> fst p < N"
  shows "\<exists>dst'. medianStep str src t dst = Inr dst' \<and> grid (\<lambda>c. True) N dst' \<and>
          (\<forall>q. in_range N q \<longrightarrow> cellAt dst' q =
             (if q = fst t then median str (map (cellAt src) (snd t)) else cellAt dst q))"
proof -
  from s have len: "int (length src) = N" by (simp add: grid_def)
  from t(2) have r: "reads src (snd t) = Inr (map (cellAt src) (snd t))"
    using len by (intro reads_rows) simp
  have ir: "in_range N (fst (fst t), snd (fst t))" using t(1) by simp
  from wr_cellAt [OF d ir, of "median str (map (cellAt src) (snd t))"]
  obtain dst' where
    "wr dst (fst (fst t)) (snd (fst t)) (median str (map (cellAt src) (snd t))) = Inr dst'"
    "grid (\<lambda>c. True) N dst'"
    "\<forall>q. in_range N q \<longrightarrow> cellAt dst' q =
       (if q = (fst (fst t), snd (fst t)) then median str (map (cellAt src) (snd t)) else cellAt dst q)"
    by blast
  with r show ?thesis by (simp add: medianStep_def)
qed

lemma medianSteps_keep:
  assumes s: "grid Q N src" and d: "grid (\<lambda>c. True) N dst \<and> cellAt dst (0, 0) = v" and N: "1 \<le> N"
    and t: "\<forall>t \<in> set ts. in_range N (fst t) \<and> fst t \<noteq> (0, 0) \<and>
              (\<forall>p \<in> set (snd t). 0 \<le> fst p \<and> fst p < N)"
  shows "\<exists>dst'. foldE (medianStep str src) ts dst = Inr dst' \<and>
           (grid (\<lambda>c. True) N dst' \<and> cellAt dst' (0, 0) = v)"
proof (rule foldE_inv [where I = "\<lambda>d. grid (\<lambda>c. True) N d \<and> cellAt d (0, 0) = v", OF d])
  fix a and u :: heightfield
  assume a: "a \<in> set ts" and u: "grid (\<lambda>c. True) N u \<and> cellAt u (0, 0) = v"
  from a t have ta: "in_range N (fst a)" "fst a \<noteq> (0, 0)" "\<forall>p \<in> set (snd a). 0 \<le> fst p \<and> fst p < N"
    by auto
  from u have ug: "grid (\<lambda>c. True) N u" and uv: "cellAt u (0, 0) = v" by simp_all
  have o: "in_range N (0, 0)" using N by (simp add: in_range_def)
  from medianStep_cells [OF s ug ta(1,3), of str]
  obtain u' where u': "medianStep str src a u = Inr u'" "grid (\<lambda>c. True) N u'"
      "\<forall>q. in_range N q \<longrightarrow> cellAt u' q =
         (if q = fst a then median str (map (cellAt src) (snd a)) else cellAt u q)"
    by blast
  from u'(3) o ta(2) have "cellAt u' (0, 0) = cellAt u (0, 0)" by auto
  with u'(1,2) uv show "\<exists>u'. medianStep str src a u = Inr u' \<and>
      (grid (\<lambda>c. True) N u' \<and> cellAt u' (0, 0) = v)" by simp
qed

lemma median3Filter_corner:
  assumes s: "grid Q N src" and N: "2 \<le> N"
  shows "\<exists>dst. median3Filter str src = Inr dst \<and>
           cellAt dst (0, 0) = median str (map (cellAt src) [(0, 0), (1, 0), (0, 1), (1, 1)])"
proof -
  let ?v = "median str (map (cellAt src) [(0, 0), (1, 0), (0, 1), (1, 1)])"
  let ?I = "\<lambda>d. grid (\<lambda>c. True) N d \<and> cellAt d (0, 0) = ?v"
  from s have len: "int (length src) = N" by (simp add: grid_def)
  then have nl: "length src = nat N" by simp
  have sT: "grid (\<lambda>c. True) N src" by (rule grid_weaken [OF s]) simp
  have N1: "1 \<le> N" using N by simp
  have d0: "grid (\<lambda>c. True) N (replicate (length src) (replicate (length src) (Some 0)))"
    unfolding nl using N by (intro grid_replicate) simp_all
  have "\<exists>d1. foldE (\<lambda>y. foldE (coreStep src y) (upto_by 0 (N - 2) 1)) (upto_by 0 (N - 2) 1)
          (replicate (length src) (replicate (length src) (Some 0))) = Inr d1 \<and> grid (\<lambda>c. True) N d1"
  proof (rule foldE_inv [where I = "grid (\<lambda>c. True) N", OF d0])
    fix y and t :: heightfield
    assume y: "y \<in> set (upto_by 0 (N - 2) 1)" and t: "grid (\<lambda>c. True) N t"
    from upto_by_set [OF y] have yb: "0 \<le> y" "y + 2 < N" by simp_all
    show "\<exists>t'. foldE (coreStep src y) (upto_by 0 (N - 2) 1) t = Inr t' \<and> grid (\<lambda>c. True) N t'"
    proof (rule foldE_inv [where I = "grid (\<lambda>c. True) N", OF t])
      fix x and u :: heightfield
      assume x: "x \<in> set (upto_by 0 (N - 2) 1)" and u: "grid (\<lambda>c. True) N u"
      from upto_by_set [OF x] have "0 \<le> x" "x + 2 < N" by simp_all
      with yb show "\<exists>u'. coreStep src y x u = Inr u' \<and> grid (\<lambda>c. True) N u'"
        by (intro coreStep_grid [OF sT u value_ok_any])
    qed
  qed
  then obtain d1 where d1: "foldE (\<lambda>y. foldE (coreStep src y) (upto_by 0 (N - 2) 1))
      (upto_by 0 (N - 2) 1) (replicate (length src) (replicate (length src) (Some 0))) = Inr d1"
      "grid (\<lambda>c. True) N d1" by blast
  let ?n = "N - 1"
  have t0: "in_range N (fst ((0::int, 0::int), [(0::int, 0::int), (1, 0), (0, 1), (1, 1)]))"
      "\<forall>p \<in> set (snd ((0::int, 0::int), [(0::int, 0::int), (1, 0), (0, 1), (1, 1)])). 0 \<le> fst p \<and> fst p < N"
    using N by (simp_all add: in_range_def)
  from medianStep_cells [OF s d1(2) t0, of str]
  obtain c1 where c1: "medianStep str src ((0, 0), [(0, 0), (1, 0), (0, 1), (1, 1)]) d1 = Inr c1"
      "grid (\<lambda>c. True) N c1" "cellAt c1 (0, 0) = ?v"
    using N by (auto simp: in_range_def)
  have "\<exists>d2. foldE (medianStep str src)
               [((?n, 0), [(?n, 0), (?n, 1), (?n - 1, 0), (?n - 1, 1)]),
                ((0, ?n), [(0, ?n), (1, ?n), (0, ?n - 1), (1, ?n - 1)]),
                ((?n, ?n), [(?n, ?n), (?n, ?n - 1), (?n - 1, ?n), (?n - 1, ?n - 1)])] c1 = Inr d2
          \<and> ?I d2"
    using N by (intro medianSteps_keep [OF s _ N1] conjI c1(2,3)) (simp add: in_range_def)
  then obtain d2 where d2': "foldE (medianStep str src)
               [((?n, 0), [(?n, 0), (?n, 1), (?n - 1, 0), (?n - 1, 1)]),
                ((0, ?n), [(0, ?n), (1, ?n), (0, ?n - 1), (1, ?n - 1)]),
                ((?n, ?n), [(?n, ?n), (?n, ?n - 1), (?n - 1, ?n), (?n - 1, ?n - 1)])] c1 = Inr d2"
      and d2i: "?I d2" by blast
  have d2: "foldE (medianStep str src)
               [((0, 0), [(0, 0), (1, 0), (0, 1), (1, 1)]),
                ((?n, 0), [(?n, 0), (?n, 1), (?n - 1, 0), (?n - 1, 1)]),
                ((0, ?n), [(0, ?n), (1, ?n), (0, ?n - 1), (1, ?n - 1)]),
                ((?n, ?n), [(?n, ?n), (?n, ?n - 1), (?n - 1, ?n), (?n - 1, ?n - 1)])] d1 = Inr d2"
    using c1(1) d2' by simp
  have "\<exists>d3. foldE (\<lambda>y. foldE (medianStep str src)
                     [((y, 0), [(y - 1, 0), (y, 0), (y + 1, 0), (y - 1, 1), (y, 1), (y + 1, 1)]),
                      ((y, ?n), [(y - 1, ?n), (y, ?n), (y + 1, ?n),
                                (y - 1, ?n - 1), (y, ?n - 1), (y + 1, ?n - 1)])])
               (upto_by 1 ?n 1) d2 = Inr d3 \<and> ?I d3"
  proof (rule foldE_inv [where I = ?I, OF d2i])
    fix y and t :: heightfield
    assume y: "y \<in> set (upto_by 1 ?n 1)" and t: "?I t"
    from upto_by_set [OF y] have "1 \<le> y" "y + 1 < N" by simp_all
    then show "\<exists>t'. foldE (medianStep str src)
                     [((y, 0), [(y - 1, 0), (y, 0), (y + 1, 0), (y - 1, 1), (y, 1), (y + 1, 1)]),
                      ((y, ?n), [(y - 1, ?n), (y, ?n), (y + 1, ?n),
                                (y - 1, ?n - 1), (y, ?n - 1), (y + 1, ?n - 1)])] t = Inr t'
              \<and> ?I t'"
      using N by (intro medianSteps_keep [OF s t N1]) (simp add: in_range_def)
  qed
  then obtain d3 where d3: "foldE (\<lambda>y. foldE (medianStep str src)
                     [((y, 0), [(y - 1, 0), (y, 0), (y + 1, 0), (y - 1, 1), (y, 1), (y + 1, 1)]),
                      ((y, ?n), [(y - 1, ?n), (y, ?n), (y + 1, ?n),
                                (y - 1, ?n - 1), (y, ?n - 1), (y + 1, ?n - 1)])])
               (upto_by 1 ?n 1) d2 = Inr d3" and d3i: "?I d3" by blast
  have "\<exists>d4. foldE (\<lambda>x. foldE (medianStep str src)
              [((0, x), [(0, x - 1), (0, x), (0, x + 1), (1, x - 1), (1, x), (1, x + 1)]),
               ((?n, x), [(?n, x - 1), (?n, x), (?n, x + 1),
                         (?n - 1, x - 1), (?n - 1, x), (?n - 1, x + 1)])])
        (upto_by 1 ?n 1) d3 = Inr d4 \<and> ?I d4"
  proof (rule foldE_inv [where I = ?I, OF d3i])
    fix x and t :: heightfield
    assume x: "x \<in> set (upto_by 1 ?n 1)" and t: "?I t"
    from upto_by_set [OF x] have "1 \<le> x" "x + 1 < N" by simp_all
    then show "\<exists>t'. foldE (medianStep str src)
              [((0, x), [(0, x - 1), (0, x), (0, x + 1), (1, x - 1), (1, x), (1, x + 1)]),
               ((?n, x), [(?n, x - 1), (?n, x), (?n, x + 1),
                         (?n - 1, x - 1), (?n - 1, x), (?n - 1, x + 1)])] t = Inr t'
              \<and> ?I t'"
      using N by (intro medianSteps_keep [OF s t N1]) (simp add: in_range_def)
  qed
  then obtain d4 where d4: "foldE (\<lambda>x. foldE (medianStep str src)
              [((0, x), [(0, x - 1), (0, x), (0, x + 1), (1, x - 1), (1, x), (1, x + 1)]),
               ((?n, x), [(?n, x - 1), (?n, x), (?n, x + 1),
                         (?n - 1, x - 1), (?n - 1, x), (?n - 1, x + 1)])])
        (upto_by 1 ?n 1) d3 = Inr d4" and d4i: "?I d4" by blast
  have "median3Filter str src = Inr d4"
    unfolding median3Filter_def Let_def len using d1(1) d2 d3 d4 by simp
  with d4i show ?thesis by blast
qed

lemma filter_insert_str: "length (filter P (insert_str str v vs)) = length (filter P (v # vs))"
  by (induction vs) auto

lemma filter_sort_str: "length (filter P (sort_str str vs)) = length (filter P vs)"
  by (induction vs) (simp_all add: filter_insert_str)

lemma median_four_neg:
  assumes "neg a" "neg b" "neg c" "nonpos d"
  shows "neg (median str [a, b, c, d])"
proof -
  from assms obtain x y z w where e: "a = Some x" "b = Some y" "c = Some z" "d = Some w"
    and n: "x < 0" "y < 0" "z < 0" "w \<le> 0"
    by (auto simp: neg_iff nonpos_iff)
  let ?l = "sort_str str [x, y, z, w]"
  have len: "length ?l = 4" by (simp only: length_sort_str) simp
  then obtain l0 l1 l2 l3 where l: "?l = [l0, l1, l2, l3]"
    by (auto simp: length_Suc_conv eval_nat_numeral)
  have st: "set ?l = {x, y, z, w}" by (simp only: set_sort_str) simp
  have "l1 \<in> set ?l" "l2 \<in> set ?l" unfolding l by simp_all
  then have le: "l1 \<le> 0" "l2 \<le> 0" unfolding st using n by auto
  have "length (filter (\<lambda>v. 0 \<le> v) ?l) = length (filter (\<lambda>v. 0 \<le> v) [x, y, z, w])"
    by (rule filter_sort_str)
  also have "\<dots> \<le> 1" using n by simp
  finally have "\<not> (0 \<le> l1 \<and> 0 \<le> l2)" unfolding l by (auto split: if_splits)
  with le have lt: "(l1 + l2) / 2 < 0" by auto
  have "median str [a, b, c, d] = Some ((l1 + l2) / 2)"
    unfolding median_def Let_def e filterUndefined.simps l by simp
  with lt show ?thesis by simp
qed


section \<open>A chunk generated without constraints\<close>

lemma generateTerrain_low:
  assumes v: "value_ok str (\<lambda>k. 1 / 2) Q" and q: "Q (Some (rand (lowFirst n) (165 / 2)))"
    and P: "\<And>cs. \<forall>c \<in> set cs. c \<noteq> None \<longrightarrow> Q c \<Longrightarrow> Some (rand (lowFirst n) (165 / 2)) \<in> set cs
              \<Longrightarrow> P (average cs)"
  shows "\<exists>src m n'. generateTerrain str lowFirst 5 5 free n = Inr (m, n') \<and> 1 \<le> n' \<and>
           grid Q 33 src \<and> cellAt src (0, 0) = Some (rand (lowFirst n) (165 / 2)) \<and>
           P (cellAt src (1, 0)) \<and> P (cellAt src (0, 1)) \<and> grid Q 33 m \<and>
           cellAt m (0, 0) =
             median str [cellAt src (0, 0), cellAt src (1, 0), cellAt src (0, 1), cellAt src (1, 1)]"
proof -
  let ?v0 = "Some (rand (lowFirst n) (165 / 2))"
  from v have q0: "Q (Some 0)" by (simp add: value_ok_def)
  have N: "(33::int) = 32 + 1" and mx: "(32::int) = 2 ^ 5" and m1: "(1::int) \<le> 32" and N2: "(2::int) \<le> 33"
    by simp_all
  have g0: "grid Q 33 (replicate 33 (replicate 33 (Some 0)))"
    using grid_replicate [of 33 Q "Some 0"] q0 by simp
  from seedCorners_kept [where Q = Q and scale = "165 / 2" and n = n, OF g0 N m1 q0 q]
  obtain s0 where s0: "seedCorners lowFirst (165 / 2) 32 free
      (replicate 33 (replicate 33 (Some 0)), n) = Inr s0" "kept Q 33 ?v0 s0"
    by blast
  from divide_near [where P = P and k = 4 and roughness = 5, OF v N mx P s0(2)]
  obtain s1 where s1: "divide lowFirst 5 32 free 32 s0 = Inr s1" "kept Q 33 ?v0 s1"
      "P (cellAt (fst s1) (1, 0))" "P (cellAt (fst s1) (0, 1))"
    by auto
  from s1(2) have g1: "grid Q 33 (fst s1)" and c1: "cellAt (fst s1) (0, 0) = ?v0"
    and n1: "1 \<le> snd s1" by (simp_all add: kept_def)
  from median3Filter_grid [OF g1 v N2]
  obtain sm where sm: "median3Filter str (fst s1) = Inr sm" "grid Q 33 sm" by blast
  from median3Filter_corner [OF g1 N2, of str] sm(1)
  have c: "cellAt sm (0, 0) = median str [cellAt (fst s1) (0, 0), cellAt (fst s1) (1, 0),
      cellAt (fst s1) (0, 1), cellAt (fst s1) (1, 1)]" by simp
  have f: "forceEdges free 33 32 sm = Inr sm" by (simp add: forceEdges_def free_def)
  have sz: "newArray (sizeOf 5) = Inr 33" using newArray_sizeOf [of 5] by simp
  have "generateTerrain str lowFirst 5 5 free n = Inr (sm, snd s1)"
    unfolding generateTerrain_def sz bindE_Inr Let_def using s0(1) s1(1) sm(1) f by simp
  with n1 g1 c1 s1(3,4) sm(2) c show ?thesis by blast
qed

lemma first_chunk:
  "\<exists>a n. generateTerrain str lowFirst 5 5 free 0 = Inr (a, n) \<and> 1 \<le> n \<and> grid nonpos 33 a \<and>
     neg (cellAt a (0, 0))"
proof -
  have r: "rand (lowFirst 0) (165 / 2) = - (165 / 2)" by (simp add: lowFirst_def rand_def)
  have q: "nonpos (Some (rand (lowFirst 0) (165 / 2)))" unfolding r by simp
  have P: "neg (average cs)"
    if "\<forall>c \<in> set cs. c \<noteq> None \<longrightarrow> nonpos c" "Some (rand (lowFirst 0) (165 / 2)) \<in> set cs" for cs
    using that unfolding r by (rule average_neg) simp
  from generateTerrain_low [where Q = nonpos and P = neg and n = 0 and str = str,
      OF value_ok_nonpos q P]
  obtain src a n where A: "generateTerrain str lowFirst 5 5 free 0 = Inr (a, n)" "1 \<le> n"
      "grid nonpos 33 src" "cellAt src (0, 0) = Some (rand (lowFirst 0) (165 / 2))"
      "neg (cellAt src (1, 0))" "neg (cellAt src (0, 1))" "grid nonpos 33 a"
      "cellAt a (0, 0) =
         median str [cellAt src (0, 0), cellAt src (1, 0), cellAt src (0, 1), cellAt src (1, 1)]"
    by blast
  have "neg (cellAt src (0, 0))" unfolding A(4) r by simp
  moreover have "nonpos (cellAt src (1, 1))"
    using cellAt_grid(2) [OF A(3), of "(1, 1)"] by simp
  ultimately have "neg (cellAt a (0, 0))"
    unfolding A(8) using A(5,6) by (intro median_four_neg)
  with A(1,2,7) show ?thesis by blast
qed

lemma later_chunk:
  assumes "1 \<le> n"
  shows "\<exists>n'. generateTerrain str lowFirst 5 5 free n = Inr (replicate 33 (replicate 33 (Some 0)), n')"
proof -
  from assms have r: "rand (lowFirst n) (165 / 2) = 0" by (simp add: lowFirst_def rand_def)
  have v: "value_ok str (\<lambda>k. 1 / 2) (\<lambda>c. c = Some 0)" by (rule value_ok_zero) simp
  have q: "Some (rand (lowFirst n) (165 / 2)) = Some 0" unfolding r by simp
  from generateTerrain_low [where Q = "\<lambda>c. c = Some 0" and P = "\<lambda>c. True" and n = n and str = str,
      OF v q]
  obtain m n' where m: "generateTerrain str lowFirst 5 5 free n = Inr (m, n')"
      "grid (\<lambda>c. c = Some 0) 33 m"
    by blast
  from grid_zero [OF m(2)] have "m = replicate 33 (replicate 33 (Some 0))" by simp
  with m(1) show ?thesis by blast
qed

section \<open>Claims about generateTerrain\<close>

text \<open>
  C1, as amended. The rows of the map are \<^verbatim>\<open>Float32Array\<close>s, so the statement is for
  constraints whose numbers are float32 numbers, as the numbers of an edge extracted from
  a generated map are. Of those, a left or right constraint comes back exactly. A top or
  bottom constraint comes back exactly except where a left or right constraint was given
  too: there the corner cell holds the left or right value. So every constrained edge is
  returned as supplied when the constraints agree at the corners they share.
\<close>

theorem constrained_edges_returned:
  assumes "0 \<le> detail" "detail < 32" and "lengths_ok (2 ^ nat detail + 1) c"
    and "float32_ok c"
  shows "\<exists>m n. generateTerrain str rnd detail roughness c n0 = Inr (m, n) \<and>
           (\<forall>r. c_right c = Some r \<longrightarrow> extractRight m = r) \<and>
           (\<forall>l. c_left c = Some l \<longrightarrow> extractLeft m = l) \<and>
           (\<forall>t. c_top c = Some t \<longrightarrow> extractTop m = Some (corner_fix t c 0)) \<and>
           (\<forall>b. c_bottom c = Some b \<longrightarrow> extractBottom m = Some (corner_fix b c (2 ^ nat detail)))"
proof -
  let ?N = "(2::int) ^ nat detail + 1" and ?mx = "(2::int) ^ nat detail"
  from generateTerrain_total [OF assms(1,2) refl, of str rnd roughness c n0]
  obtain sm m n where m: "generateTerrain str rnd detail roughness c n0 = Inr (m, n)"
      "grid (\<lambda>c. True) ?N m" "\<forall>q. in_range ?N q \<longrightarrow> cellAt m q = forced c ?mx sm q"
    by auto
  have mx: "?N = ?mx + 1" "1 \<le> ?mx" "0 \<le> ?mx" by simp_all
  have nmx: "nat ?mx = 2 ^ nat detail" by (simp add: nat_power_eq)
  have "extractRight m = r" if "c_right c = Some r" for r
    using that assms(3)
    by (intro extractRight_forced [OF m(2,3) mx(1,3)]) (simp_all add: lengths_ok_def edge_len_def)
  moreover have "extractLeft m = l" if "c_left c = Some l" for l
    using that assms(3)
    by (intro extractLeft_forced [OF m(2,3) mx(1,2)]) (simp_all add: lengths_ok_def edge_len_def)
  moreover have "extractTop m = Some (corner_fix t c 0)" if "c_top c = Some t" for t
    by (rule top_forced [OF m(2,3) mx(1,2) that assms(3)])
  moreover have "extractBottom m = Some (corner_fix b c (2 ^ nat detail))" if "c_bottom c = Some b" for b
    using bottom_forced [OF m(2,3) mx(1,2) that assms(3)] unfolding nmx .
  ultimately show ?thesis using m(1) by blast
qed

theorem constrained_edges_returned_witness:
  "lengths_ok 3 corner_clash \<and> float32_ok corner_clash \<and>
   (\<exists>m n. generateTerrain numberToString (\<lambda>k. 1 / 2) 1 1 corner_clash 0 = Inr (m, n) \<and>
          extractRight m = [Some 5, Some 2, Some 0] \<and>
          extractTop m = Some [Some 5, Some 1, Some 9])"
proof -
  have l: "lengths_ok (2 ^ nat 1 + 1) corner_clash"
    by (simp add: lengths_ok_def edge_len_def corner_clash_def free_def)
  have f: "float32_ok corner_clash" by (rule float32_corner_clash)
  have "(0::int) \<le> 1" "(1::int) < 32" by simp_all
  from constrained_edges_returned [OF this l f, of numberToString "\<lambda>k. 1 / 2" 1 0] l f
  show ?thesis by (auto simp: corner_clash_def free_def corner_fix_def)
qed

theorem corner_not_returned_counterexample:
  "generateTerrain numberToString (\<lambda>k. 1 / 2) 1 1 corner_clash 0 =
     Inr ([[Some 5, Some 1, Some 9], [Some 2, Some 2, Some 2], [Some 0, Some (3 / 2), Some 2]], 4) \<and>
   lengths_ok 3 corner_clash \<and> float32_ok corner_clash \<and>
   c_top corner_clash = Some [Some 3, Some 1, Some 9] \<and>
   extractTop [[Some 5, Some 1, Some 9], [Some 2, Some 2, Some 2], [Some 0, Some (3 / 2), Some 2]]
     \<noteq> c_top corner_clash"
  using float32_corner_clash
  by (simp add: gen_eval corner_clash_def lengths_ok_def edge_len_def extractTop_def)

text \<open>
  C10. The closing loops run in the order top, bottom, left, right, each over its whole
  row or column, so the returned cell at \<open>q\<close> is \<open>forced c mx sm q\<close>: where two given
  constraints meet in a corner, the later one gives the returned value. The cell is a
  cell of a \<^verbatim>\<open>Float32Array\<close>: that it holds the constraint's number is said of
  constraints whose numbers are float32 numbers.
\<close>

theorem later_edge_wins:
  assumes "0 \<le> detail" "detail < 32" and "N = 2 ^ nat detail + 1" and "float32_ok c"
  shows "\<exists>sm m n. generateTerrain str rnd detail roughness c n0 = Inr (m, n) \<and>
           (\<forall>q. in_range N q \<longrightarrow> cellAt m q = forced c (N - 1) sm q) \<and>
           (c_top c \<noteq> None \<and> c_right c \<noteq> None \<longrightarrow> cellAt m (0, 0) = elem (the (c_right c)) 0) \<and>
           (c_top c \<noteq> None \<and> c_left c \<noteq> None \<longrightarrow> cellAt m (0, N - 1) = elem (the (c_left c)) 0) \<and>
           (c_bottom c \<noteq> None \<and> c_right c \<noteq> None
              \<longrightarrow> cellAt m (N - 1, 0) = elem (the (c_right c)) (N - 1)) \<and>
           (c_bottom c \<noteq> None \<and> c_left c \<noteq> None
              \<longrightarrow> cellAt m (N - 1, N - 1) = elem (the (c_left c)) (N - 1))"
proof -
  from generateTerrain_total [OF assms(1-3), of str rnd roughness c n0]
  obtain sm m n where m: "generateTerrain str rnd detail roughness c n0 = Inr (m, n)"
      "\<forall>q. in_range N q \<longrightarrow> cellAt m q = forced c (N - 1) sm q"
    by auto
  have "(1::int) \<le> 2 ^ nat detail" by (rule one_le_power) simp
  with assms(3) have N: "2 \<le> N" by simp
  then have r: "in_range N (0, 0)" "in_range N (0, N - 1)" "in_range N (N - 1, 0)"
      "in_range N (N - 1, N - 1)"
    by (simp_all add: in_range_def)
  from m(2) r N have
    "c_top c \<noteq> None \<and> c_right c \<noteq> None \<longrightarrow> cellAt m (0, 0) = elem (the (c_right c)) 0"
    "c_top c \<noteq> None \<and> c_left c \<noteq> None \<longrightarrow> cellAt m (0, N - 1) = elem (the (c_left c)) 0"
    "c_bottom c \<noteq> None \<and> c_right c \<noteq> None \<longrightarrow> cellAt m (N - 1, 0) = elem (the (c_right c)) (N - 1)"
    "c_bottom c \<noteq> None \<and> c_left c \<noteq> None
       \<longrightarrow> cellAt m (N - 1, N - 1) = elem (the (c_left c)) (N - 1)"
    by (simp_all add: forced_def)
  with m show ?thesis by blast
qed

theorem later_edge_wins_witness:
  "float32_ok corner_clash \<and>
   (\<exists>m n. generateTerrain numberToString (\<lambda>k. 1 / 2) 1 1 corner_clash 0 = Inr (m, n) \<and>
     elem (the (c_top corner_clash)) 0 = Some 3 \<and> cellAt m (0, 0) = Some 5)"
proof -
  have f: "float32_ok corner_clash" by (rule float32_corner_clash)
  have "(0::int) \<le> 1" "(1::int) < 32" "(3::int) = 2 ^ nat 1 + 1" by simp_all
  from later_edge_wins [OF this f, of numberToString "\<lambda>k. 1 / 2" 1 0] f
  show ?thesis by (auto simp: corner_clash_def free_def elem_def)
qed

text \<open>
  C4. For \<open>detail\<close> from 1 up to the largest size an array can have, the result is a
  square of side \<open>2^detail + 1\<close>; when every given constraint has that length and holds
  numbers, every cell of the result holds a number.
\<close>

theorem generateTerrain_square:
  assumes "1 \<le> detail" "detail < 32"
  shows "\<exists>m n. generateTerrain str rnd detail roughness c n0 = Inr (m, n) \<and>
           int (length m) = 2 ^ nat detail + 1 \<and>
           (\<forall>row \<in> set m. int (length row) = 2 ^ nat detail + 1) \<and>
           (lengths_ok (2 ^ nat detail + 1) c \<and> numbers_ok c \<longrightarrow> (\<forall>row \<in> set m. None \<notin> set row))"
proof -
  let ?N = "(2::int) ^ nat detail + 1"
  from assms have d: "0 \<le> detail" by simp
  from generateTerrain_total [OF d assms(2) refl, of str rnd roughness c n0]
  obtain m n where m: "generateTerrain str rnd detail roughness c n0 = Inr (m, n)"
      "grid (\<lambda>c. True) ?N m"
    by auto
  have "\<forall>row \<in> set m. None \<notin> set row" if "lengths_ok ?N c \<and> numbers_ok c"
  proof -
    from that have "cons_ok (\<lambda>c. c \<noteq> None) ?N c" by (intro cons_ok_numbers) blast+
    from generateTerrain_cells [OF value_ok_number d assms(2) refl this, of str rnd roughness n0] m(1)
    have "grid (\<lambda>c. c \<noteq> None) ?N m" by auto
    then show ?thesis by (auto simp: grid_def)
  qed
  with m show ?thesis by (auto simp: grid_def)
qed

theorem generateTerrain_square_witness:
  "lengths_ok 3 corner_clash \<and> numbers_ok corner_clash \<and>
   (\<exists>m n. generateTerrain numberToString (\<lambda>k. 1 / 2) 1 1 corner_clash 0 = Inr (m, n) \<and>
          length m = 3 \<and> (\<forall>row \<in> set m. length row = 3 \<and> None \<notin> set row))"
proof -
  have l: "lengths_ok 3 corner_clash" "numbers_ok corner_clash"
    by (simp_all add: lengths_ok_def edge_len_def numbers_ok_def edge_numbers_def
        corner_clash_def free_def)
  have "(1::int) \<le> 1" "(1::int) < 32" by simp_all
  from generateTerrain_square [OF this, of numberToString "\<lambda>k. 1 / 2" 1 corner_clash 0] l
  show ?thesis by auto
qed

text \<open>
  C9. For \<open>detail = 1\<close> and any constraints the call returns a 3 by 3 map: no row outside
  the map is indexed. There is one subdivision pass: \<^verbatim>\<open>divide(1)\<close> returns at once.
\<close>

theorem detail_one_completes:
  "(\<exists>m n. generateTerrain str rnd 1 roughness c n0 = Inr (m, n) \<and>
          length m = 3 \<and> (\<forall>row \<in> set m. length row = 3)) \<and>
   divide rnd roughness 2 c 1 s = Inr s"
proof -
  have "(0::int) \<le> 1" "(1::int) < 32" "(3::int) = 2 ^ nat 1 + 1" by simp_all
  from generateTerrain_total [OF this, of str rnd roughness c n0]
  obtain m n where "generateTerrain str rnd 1 roughness c n0 = Inr (m, n)"
      "grid (\<lambda>c. True) 3 m" by auto
  moreover have "divide rnd roughness 2 c 1 s = Inr s" by (subst divide.simps) simp
  ultimately show ?thesis by (auto simp: grid_def)
qed

theorem detail_one_completes_witness:
  "(\<exists>m n. generateTerrain numberToString (\<lambda>k. 1 / 2) 1 1 corner_clash 0 = Inr (m, n) \<and>
          length m = 3 \<and> (\<forall>row \<in> set m. length row = 3)) \<and>
   divide (\<lambda>k. 1 / 2) 1 2 corner_clash 1 ([], 0) = Inr ([], 0)"
  by (rule detail_one_completes)

text \<open>
  C3, as amended. No argument is checked, and no failure is one of validation. For
  \<open>detail\<close> from 0 to 31 a map of side \<open>2^detail + 1\<close> is returned whatever the roughness
  and the constraint arrays are (memory is not modelled). What fails, fails in the
  language: for \<open>detail\<close> from \<open>-52\<close> to \<open>-1\<close> (a size that is a fraction) and from 32 on
  (a size above \<open>2^32 - 1\<close>) the allocation of the array throws a RangeError; for
  \<open>detail \<le> -53\<close> the size is 1 and the median filter throws a TypeError at the row that
  is not there.
\<close>

theorem generateTerrain_checks_nothing:
  "(0 \<le> detail \<and> detail < 32 \<longrightarrow>
      (\<exists>m n. generateTerrain str rnd detail roughness c n0 = Inr (m, n) \<and>
             int (length m) = 2 ^ nat detail + 1 \<and>
             (\<forall>row \<in> set m. int (length row) = 2 ^ nat detail + 1))) \<and>
   ((- 53 < detail \<and> detail < 0) \<or> 32 \<le> detail \<longrightarrow>
      newArray (sizeOf detail) = Inl RangeError \<and>
      generateTerrain str rnd detail roughness c n0 = Inl RangeError) \<and>
   (detail \<le> - 53 \<longrightarrow>
      newArray (sizeOf detail) = Inr 1 \<and>
      generateTerrain str rnd detail roughness c n0 = Inl TypeError)"
proof (intro conjI impI)
  assume "0 \<le> detail \<and> detail < 32"
  then have "0 \<le> detail" "detail < 32" by simp_all
  from generateTerrain_total [OF this refl, of str rnd roughness c n0]
  show "\<exists>m n. generateTerrain str rnd detail roughness c n0 = Inr (m, n) \<and>
             int (length m) = 2 ^ nat detail + 1 \<and>
             (\<forall>row \<in> set m. int (length row) = 2 ^ nat detail + 1)"
    by (auto simp: grid_def)
next
  assume a: "(- 53 < detail \<and> detail < 0) \<or> 32 \<le> detail"
  then show r: "newArray (sizeOf detail) = Inl RangeError"
    using newArray_fraction [of detail] newArray_large [of detail] by blast
  show "generateTerrain str rnd detail roughness c n0 = Inl RangeError"
    unfolding generateTerrain_def r by simp
next
  assume a: "detail \<le> - 53"
  then show "newArray (sizeOf detail) = Inr 1" by (rule newArray_one)
  from a show "generateTerrain str rnd detail roughness c n0 = Inl TypeError"
    by (rule generateTerrain_one_row)
qed

theorem generateTerrain_checks_nothing_witness:
  "(\<exists>m n. generateTerrain numberToString (\<lambda>k. 1 / 2) 0 (- 2) short_top 0 = Inr (m, n) \<and>
          length m = 2 \<and> (\<forall>row \<in> set m. length row = 2)) \<and>
   generateTerrain numberToString (\<lambda>k. 1 / 2) (- 1) 1 free 0 = Inl RangeError \<and>
   generateTerrain numberToString (\<lambda>k. 1 / 2) 32 1 free 0 = Inl RangeError \<and>
   generateTerrain numberToString (\<lambda>k. 1 / 2) (- 53) 1 free 0 = Inl TypeError"
  using generateTerrain_checks_nothing [of 0 numberToString "\<lambda>k. 1 / 2" "- 2" short_top 0]
    generateTerrain_checks_nothing [of "- 1" numberToString "\<lambda>k. 1 / 2" 1 free 0]
    generateTerrain_checks_nothing [of 32 numberToString "\<lambda>k. 1 / 2" 1 free 0]
    generateTerrain_checks_nothing [of "- 53" numberToString "\<lambda>k. 1 / 2" 1 free 0]
  by simp

theorem invalid_arguments_accepted_counterexample:
  "generateTerrain numberToString (\<lambda>k. 1 / 2) 0 1 free 0 =
     Inr ([[Some 0, Some 0], [Some 0, Some 0]], 4) \<and>
   generateTerrain numberToString (\<lambda>k. 1 / 2) 1 (- 2) free 0 =
     Inr ([[Some 0, Some 0, Some 0], [Some 0, Some 0, Some 0], [Some 0, Some 0, Some 0]], 9) \<and>
   generateTerrain numberToString (\<lambda>k. 1 / 2) 1 1 short_top 0 =
     Inr ([[Some 0, None, None], [Some 0, Some 0, Some 0], [Some 0, Some 0, Some 0]], 6)"
  by (simp add: gen_eval short_top_def)

text \<open>
  C6, as amended. \<^verbatim>\<open>generateTerrain\<close> first seeds the corners of the zeroed map, with
  \<open>scale = roughness * N / 2\<close>, and subdivides from there. A corner takes its seed from
  the top or bottom constraint when that one is given, else from the right or left
  constraint when that one is given (top before right at \<open>(0, 0)\<close>, bottom before right
  at \<open>(max, 0)\<close>, bottom before left at \<open>(max, max)\<close>, top before left at \<open>(0, max)\<close>),
  else it is \<^verbatim>\<open>rand(scale)\<close>, which lies between \<open>- scale\<close> and \<open>scale\<close>.
\<close>

theorem corner_seeding:
  assumes "0 \<le> detail" "detail < 32" and "N = 2 ^ nat detail + 1"
    and "scale = roughness * real_of_int N / 2"
  shows "(\<exists>m0 n1. seedCorners rnd scale (N - 1) c (replicate (nat N) (replicate (nat N) (Some 0)), n0)
                    = Inr (m0, n1) \<and>
            generateTerrain str rnd detail roughness c n0 =
              bindE (divide rnd roughness (N - 1) c (N - 1) (m0, n1)) (\<lambda>s1.
              bindE (median3Filter str (fst s1)) (\<lambda>smoothed.
              bindE (forceEdges c N (N - 1) smoothed) (\<lambda>res. Inr (res, snd s1)))) \<and>
            seeded rnd scale n0 (c_top c) 0 (c_right c) 0 (cellAt m0 (0, 0)) \<and>
            seeded rnd scale n0 (c_bottom c) 0 (c_right c) (N - 1) (cellAt m0 (N - 1, 0)) \<and>
            seeded rnd scale n0 (c_bottom c) (N - 1) (c_left c) (N - 1) (cellAt m0 (N - 1, N - 1)) \<and>
            seeded rnd scale n0 (c_top c) (N - 1) (c_left c) 0 (cellAt m0 (0, N - 1))) \<and>
         (\<forall>u. 0 \<le> u \<and> u < 1 \<and> 0 \<le> scale \<longrightarrow> - scale \<le> rand u scale \<and> rand u scale \<le> scale)"
proof -
  have "(1::int) \<le> 2 ^ nat detail" by (rule one_le_power) simp
  with assms(3) have N: "1 \<le> N - 1" "N - 1 + 1 = N" "0 \<le> N" by simp_all
  have g: "grid (\<lambda>c. True) (N - 1 + 1) (replicate (nat N) (replicate (nat N) (Some 0)))"
    unfolding N(2) using N(3) by (intro grid_replicate) simp_all
  from seedCorners_cells [OF g N(1), of rnd scale c n0]
  obtain m0 n1 where s: "seedCorners rnd scale (N - 1) c
        (replicate (nat N) (replicate (nat N) (Some 0)), n0) = Inr (m0, n1)"
      "seeded rnd scale n0 (c_top c) 0 (c_right c) 0 (cellAt m0 (0, 0))"
      "seeded rnd scale n0 (c_bottom c) 0 (c_right c) (N - 1) (cellAt m0 (N - 1, 0))"
      "seeded rnd scale n0 (c_bottom c) (N - 1) (c_left c) (N - 1) (cellAt m0 (N - 1, N - 1))"
      "seeded rnd scale n0 (c_top c) (N - 1) (c_left c) 0 (cellAt m0 (0, N - 1))"
    by blast
  have "generateTerrain str rnd detail roughness c n0 =
          bindE (divide rnd roughness (N - 1) c (N - 1) (m0, n1)) (\<lambda>s1.
          bindE (median3Filter str (fst s1)) (\<lambda>smoothed.
          bindE (forceEdges c N (N - 1) smoothed) (\<lambda>res. Inr (res, snd s1))))"
    using s(1) unfolding assms(3,4) generateTerrain_def newArray_sizeOf [OF assms(1,2)] bindE_Inr Let_def
    by simp
  with s rand_range show ?thesis by blast
qed

theorem corner_seeding_witness:
  "\<exists>m0 n1. seedCorners (\<lambda>k. 1 / 2) (3 / 2) 2 bottom_right (replicate 3 (replicate 3 (Some 0)), 0)
              = Inr (m0, n1) \<and>
     cellAt m0 (2, 0) = Some 7 \<and> cellAt m0 (0, 0) = Some 0 \<and> cellAt m0 (2, 2) = Some 0"
proof -
  have "(0::int) \<le> 1" "(1::int) < 32" "(3::int) = 2 ^ nat 1 + 1" "(3 / 2 :: real) = 1 * real_of_int 3 / 2"
    by simp_all
  from corner_seeding [OF this, of "\<lambda>k. 1 / 2" bottom_right 0 numberToString]
  show ?thesis by (auto simp: seeded_def bottom_right_def free_def elem_def)
qed

theorem bottom_before_right_counterexample:
  "seedCorners (\<lambda>k. 1 / 2) (3 / 2) 2 bottom_right (replicate 3 (replicate 3 (Some 0)), 0) =
     Inr ([[Some 0, Some 0, Some 0], [Some 0, Some 0, Some 0], [Some 7, Some 0, Some 0]], 1) \<and>
   c_bottom bottom_right = Some [Some 7, Some 0, Some 0] \<and>
   c_right bottom_right = Some [Some 0, Some 0, Some 9] \<and>
   cellAt [[Some 0, Some 0, Some 0], [Some 0, Some 0, Some 0], [Some 7, Some 0, Some 0]] (2, 0)
     \<noteq> elem (the (c_right bottom_right)) 2"
  by (simp add: gen_eval bottom_right_def cellAt_def)

text \<open>
  C5, on an example. With a left constraint \<open>[21, 0, 15]\<close> and every random value
  \<open>1/2\<close>, the map before smoothing holds integers only. The filter gives the centre the
  numeric median of its nine cells, but the corner \<open>(0, 0)\<close> and the edge cell \<open>(1, 0)\<close>
  get \<open>13/2\<close>, where the numeric medians of their four and six cells are \<open>6\<close> and
  \<open>11/2\<close>: \<^verbatim>\<open>median\<close> sorts \<open>10\<close> before \<open>3\<close>.
\<close>

theorem median_orders_by_string:
  "bindE (seedCorners (\<lambda>k. 1 / 2) (3 / 2) 2 left_only (replicate 3 (replicate 3 (Some 0)), 0))
     (divide (\<lambda>k. 1 / 2) 1 2 left_only 2) =
     Inr ([[Some 0, Some 10, Some 21], [Some 3, Some 9, Some 0], [Some 0, Some 8, Some 15]], 6) \<and>
   median3Filter numberToString
     [[Some 0, Some 10, Some 21], [Some 3, Some 9, Some 0], [Some 0, Some 8, Some 15]] =
     Inr [[Some (13 / 2), Some (31 / 2), Some (31 / 2)],
          [Some (13 / 2), Some 8, Some 18],
          [Some (11 / 2), Some 9, Some (23 / 2)]] \<and>
   numeric_median [0, 3, 10, 9] = 6 \<and>
   numeric_median [0, 3, 0, 10, 9, 8] = 11 / 2 \<and>
   numeric_median [0, 10, 21, 3, 9, 0, 0, 8, 15] = 8 \<and>
   generateTerrain numberToString (\<lambda>k. 1 / 2) 1 1 left_only 0 =
     Inr ([[Some (13 / 2), Some (31 / 2), Some 21],
           [Some (13 / 2), Some 8, Some 0],
           [Some (11 / 2), Some 9, Some 15]], 6)"
  by (simp add: gen_eval left_only_def numeric_median_def)

text \<open>
  C7. A request for a chunk that is present returns the store as it is; so a second
  request for the same coordinate changes nothing. No request, for one chunk or for a
  neighbourhood, changes or removes an entry of the store.
\<close>

theorem chunk_request_idempotent:
  "(chunkHeights w (x, y) \<noteq> None \<longrightarrow> addTerrainChunk str rnd x y w = Inr w) \<and>
   (\<forall>w1. addTerrainChunk str rnd x y w = Inr w1 \<longrightarrow> addTerrainChunk str rnd x y w1 = Inr w1) \<and>
   (\<forall>w1 k h. addTerrainChunk str rnd x y w = Inr w1 \<and> chunkHeights w k = Some h
      \<longrightarrow> chunkHeights w1 k = Some h) \<and>
   (\<forall>w1 k h. generateNeighboringChunks str rnd x y w = Inr w1 \<and> chunkHeights w k = Some h
      \<longrightarrow> chunkHeights w1 k = Some h)"
proof (intro conjI allI impI)
  assume "chunkHeights w (x, y) \<noteq> None"
  then show "addTerrainChunk str rnd x y w = Inr w" by (rule addTerrainChunk_present)
next
  fix w1 assume a: "addTerrainChunk str rnd x y w = Inr w1"
  from addTerrainChunk_step [of str rnd x y w] a
  have "(x, y) \<in> dom (chunkHeights w1)" by auto
  then show "addTerrainChunk str rnd x y w1 = Inr w1"
    by (intro addTerrainChunk_present) (simp add: domIff)
next
  fix w1 k h assume "addTerrainChunk str rnd x y w = Inr w1 \<and> chunkHeights w k = Some h"
  with addTerrainChunk_step [of str rnd x y w]
  show "chunkHeights w1 k = Some h" by (cases k) auto
next
  fix w1 k h
  assume a: "generateNeighboringChunks str rnd x y w = Inr w1 \<and> chunkHeights w k = Some h"
  let ?ks = "[(x, y), (x, y), (x + 1, y), (x - 1, y), (x, y + 1), (x, y - 1),
        (x + 1, y + 1), (x - 1, y - 1), (x + 1, y - 1), (x - 1, y + 1)]"
  from addChunks [of str rnd ?ks w] a show "chunkHeights w1 k = Some h"
    unfolding generateNeighboringChunks_fold by (cases k) auto
qed

theorem chunk_request_idempotent_witness:
  "chunkHeights storeA (0, 0) \<noteq> None \<and>
   addTerrainChunk numberToString (\<lambda>k. 1 / 2) 0 0 storeA = Inr storeA \<and>
   chunkHeights storeA (0, 0) = Some chunkA"
  using chunk_request_idempotent [of storeA 0 0 numberToString "\<lambda>k. 1 / 2"]
  by (simp add: storeA_def)

text \<open>
  C8. A request for the neighbourhood of \<open>(x, y)\<close> returns a store that holds all nine
  chunks around \<open>(x, y)\<close>. The chunks that were missing are generated, and their meshes
  added, in the order: centre, then \<open>(1,0)\<close>, \<open>(-1,0)\<close>, \<open>(0,1)\<close>, \<open>(0,-1)\<close>, \<open>(1,1)\<close>,
  \<open>(-1,-1)\<close>, \<open>(1,-1)\<close>, \<open>(-1,1)\<close>.
\<close>

theorem neighborhood_complete:
  "\<exists>w'. generateNeighboringChunks str rnd x y w = Inr w' \<and>
     (\<forall>dx \<in> {- 1, 0, 1}. \<forall>dy \<in> {- 1, 0, 1}. chunkHeights w' (x + dx, y + dy) \<noteq> None) \<and>
     meshes w' = meshes w @
       filter (\<lambda>k. chunkHeights w k = None)
         [(x, y), (x + 1, y), (x - 1, y), (x, y + 1), (x, y - 1),
          (x + 1, y + 1), (x - 1, y - 1), (x + 1, y - 1), (x - 1, y + 1)]"
proof -
  let ?ks = "[(x, y), (x + 1, y), (x - 1, y), (x, y + 1), (x, y - 1),
          (x + 1, y + 1), (x - 1, y - 1), (x + 1, y - 1), (x - 1, y + 1)]"
  have run: "generateNeighboringChunks str rnd x y w
      = foldE (\<lambda>k. addTerrainChunk str rnd (fst k) (snd k)) ((x, y) # ?ks) w"
    by (rule generateNeighboringChunks_fold)
  from addChunks [of str rnd "(x, y) # ?ks" w]
  obtain w' where w': "foldE (\<lambda>k. addTerrainChunk str rnd (fst k) (snd k)) ((x, y) # ?ks) w = Inr w'"
      "dom (chunkHeights w') = dom (chunkHeights w) \<union> set ((x, y) # ?ks)"
      "meshes w' = meshes w @ fresh (dom (chunkHeights w)) ((x, y) # ?ks)"
    by blast
  have d: "distinct ?ks" by simp
  have "fresh (dom (chunkHeights w)) ((x, y) # ?ks) = fresh (dom (chunkHeights w)) ?ks"
    by (rule fresh_twice)
  also have "\<dots> = filter (\<lambda>k. k \<notin> dom (chunkHeights w)) ?ks" by (rule fresh_distinct [OF d])
  also have "\<dots> = filter (\<lambda>k. chunkHeights w k = None) ?ks" by (simp add: domIff)
  finally have m: "meshes w' = meshes w @ filter (\<lambda>k. chunkHeights w k = None) ?ks"
    using w'(3) by simp
  have "\<forall>dx \<in> {- 1, 0, 1}. \<forall>dy \<in> {- 1, 0, 1}. (x + dx, y + dy) \<in> dom (chunkHeights w')"
    unfolding w'(2) by simp
  then have "\<forall>dx \<in> {- 1, 0, 1}. \<forall>dy \<in> {- 1, 0, 1}. chunkHeights w' (x + dx, y + dy) \<noteq> None"
    by (simp add: domIff)
  with run w'(1) m show ?thesis by simp
qed

theorem neighborhood_complete_witness:
  "\<exists>w'. generateNeighboringChunks numberToString (\<lambda>k. 1 / 2) 0 0 emptyStore = Inr w' \<and>
     chunkHeights w' (- 1, 1) \<noteq> None \<and> chunkHeights w' (1, - 1) \<noteq> None \<and>
     meshes w' = [(0, 0), (1, 0), (- 1, 0), (0, 1), (0, - 1), (1, 1), (- 1, - 1), (1, - 1), (- 1, 1)]"
  using neighborhood_complete [of numberToString "\<lambda>k. 1 / 2" 0 0 emptyStore]
  by (auto simp: emptyStore_def)

text \<open>
  C2, as amended. In every store the program can reach, for chunks at \<open>(x, y)\<close> and
  \<open>(x + 1, y)\<close> the left edge (last column) of the chunk at \<open>(x + 1, y)\<close> equals the
  right edge (first column) of the chunk at \<open>(x, y)\<close>; for chunks at \<open>(x, y)\<close> and
  \<open>(x, y + 1)\<close> the top edge (first row) of the chunk at \<open>(x, y)\<close> equals the bottom edge
  (last row) of the chunk at \<open>(x, y + 1)\<close> at every index between the two corners.

  With the two sides the other way round the property fails in a store the program can
  reach. Let \<^verbatim>\<open>Math.random()\<close> return 0 first and \<open>1/2\<close> from then on, and request
  the chunks at \<open>(0, 0)\<close>, \<open>(-2, 0)\<close> and \<open>(-1, 0)\<close>. The first chunk has its cell
  \<open>(0, 0)\<close> seeded with \<open>-82.5\<close>; the cells \<open>(1, 0)\<close> and \<open>(0, 1)\<close> are averages that
  include it and no positive number, so the median of the corner is negative: the first
  entry of the right edge (first column) of the chunk at \<open>(0, 0)\<close> is below zero. The
  second chunk is flat, and the third takes its last column from it: the left edge (last
  column) of the chunk at \<open>(-1, 0)\<close> is zero.
\<close>

theorem seam_invariant:
  assumes "reachable str rnd w" and "chunkHeights w (x, y) = Some a"
  shows "(\<forall>b. chunkHeights w (x + 1, y) = Some b \<longrightarrow> extractLeft b = extractRight a) \<and>
         (\<forall>t. chunkHeights w (x, y + 1) = Some t \<longrightarrow>
            (\<forall>j. 0 < j \<and> j < 32 \<longrightarrow>
               elem (the (extractTop a)) j = elem (the (extractBottom t)) j))"
proof (intro conjI allI impI)
  from reachable_seams [OF assms(1)] have ok: "chunks_ok w" "seams_ok w" by simp_all
  {
    fix b assume "chunkHeights w (x + 1, y) = Some b"
    with ok(2) assms(2) show "extractLeft b = extractRight a" unfolding seams_ok_def by blast
  next
    fix t j assume t: "chunkHeights w (x, y + 1) = Some t" and j: "0 < j \<and> j < (32::int)"
    from ok(1) assms(2) t have g: "grid (\<lambda>c. True) 33 a" "grid (\<lambda>c. True) 33 t"
      unfolding chunks_ok_def by blast+
    from ok(2) assms(2) t j have "cellAt a (0, j) = cellAt t (32, j)"
      unfolding seams_ok_def by blast
    then show "elem (the (extractTop a)) j = elem (the (extractBottom t)) j"
      by (simp add: extractTop_grid [OF g(1)] extractBottom_grid [OF g(2)])
  }
qed

theorem seam_invariant_witness:
  "\<exists>w a b. reachable numberToString (\<lambda>k. 1 / 2) w \<and>
     chunkHeights w (0, 0) = Some a \<and> chunkHeights w (1, 0) = Some b \<and>
     extractLeft b = extractRight a"
proof -
  have r0: "reachable numberToString (\<lambda>k. 1 / 2) emptyStore"
    unfolding emptyStore_def by (rule reachable.start)
  from addTerrainChunk_step [of numberToString "\<lambda>k. 1 / 2" 0 0 emptyStore]
  obtain w1 where w1: "addTerrainChunk numberToString (\<lambda>k. 1 / 2) 0 0 emptyStore = Inr w1"
      "dom (chunkHeights w1) = {(0, 0)}"
    by (auto simp: emptyStore_def)
  from addTerrainChunk_step [of numberToString "\<lambda>k. 1 / 2" 1 0 w1]
  obtain w2 where w2: "addTerrainChunk numberToString (\<lambda>k. 1 / 2) 1 0 w1 = Inr w2"
      "dom (chunkHeights w2) = {(1, 0), (0, 0)}"
    unfolding w1(2) by auto
  have r2: "reachable numberToString (\<lambda>k. 1 / 2) w2"
    by (rule reachable.step [OF reachable.step [OF r0 w1(1)] w2(1)])
  from w2(2) have "(0, 0) \<in> dom (chunkHeights w2)" "(0 + 1, 0) \<in> dom (chunkHeights w2)"
    by simp_all
  then obtain a b where ab: "chunkHeights w2 (0, 0) = Some a" "chunkHeights w2 (0 + 1, 0) = Some b"
    by (auto simp only: domIff)
  from seam_invariant [OF r2 ab(1)] ab(2) have "extractLeft b = extractRight a" by blast
  with r2 ab show ?thesis by auto
qed

theorem seam_sides_counterexample:
  "\<forall>str. \<exists>w a b. threeChunks str = Inr w \<and> reachable str lowFirst w \<and>
     chunkHeights w (- 1, 0) = Some b \<and> chunkHeights w (0, 0) = Some a \<and>
     extractRight a \<noteq> extractLeft b \<and> extractLeft a = extractRight b"
proof
  fix str
  let ?z = "replicate 33 (replicate 33 (Some (0::real)))"
  from first_chunk [of str]
  obtain a nA where A: "generateTerrain str lowFirst 5 5 free 0 = Inr (a, nA)" "1 \<le> nA"
      "grid nonpos 33 a" "neg (cellAt a (0, 0))" by blast
  from later_chunk [OF A(2), of str]
  obtain nZ where Z: "generateTerrain str lowFirst 5 5 free nA = Inr (?z, nZ)" by blast
  define w1 where "w1 = emptyStore\<lparr>chunkHeights := (chunkHeights emptyStore)((0, 0) \<mapsto> a),
      drawn := nA, meshes := meshes emptyStore @ [(0, 0)]\<rparr>"
  define w2 where "w2 = w1\<lparr>chunkHeights := (chunkHeights w1)((- 2, 0) \<mapsto> ?z),
      drawn := nZ, meshes := meshes w1 @ [(- 2, 0)]\<rparr>"
  have e1: "neighborEdges emptyStore 0 0 = free"
    by (simp add: neighborEdges_def emptyStore_def free_def)
  have d1: "drawn emptyStore = 0" "chunkHeights emptyStore (0, 0) = None"
    by (simp_all add: emptyStore_def)
  have s1: "addTerrainChunk str lowFirst 0 0 emptyStore = Inr w1"
    using A(1) unfolding w1_def
    by (simp add: addTerrainChunk_def addTerrainMesh_def e1 d1)
  have e2: "neighborEdges w1 (- 2) 0 = free"
    by (simp add: neighborEdges_def w1_def emptyStore_def free_def)
  have d2: "drawn w1 = nA" "chunkHeights w1 (- 2, 0) = None"
    by (simp_all add: w1_def emptyStore_def)
  have s2: "addTerrainChunk str lowFirst (- 2) 0 w1 = Inr w2"
    using Z unfolding w2_def
    by (simp add: addTerrainChunk_def addTerrainMesh_def e2 d2)
  from addTerrainChunk_step [of str lowFirst "- 1" 0 w2]
  obtain w3 where w3: "addTerrainChunk str lowFirst (- 1) 0 w2 = Inr w3"
      "dom (chunkHeights w3) = insert (- 1, 0) (dom (chunkHeights w2))"
      "\<forall>k h. chunkHeights w2 k = Some h \<longrightarrow> chunkHeights w3 k = Some h"
    by blast
  have ca: "chunkHeights w3 (0, 0) = Some a" and cz: "chunkHeights w3 (- 2, 0) = Some ?z"
    using w3(3) by (simp_all add: w2_def w1_def)
  from w3(2) obtain b where cb: "chunkHeights w3 (- 1, 0) = Some b" by blast
  have run: "threeChunks str = Inr w3" using s1 s2 w3(1) by (simp add: threeChunks_def)
  have "reachable str lowFirst emptyStore" unfolding emptyStore_def by (rule reachable.start)
  then have rc: "reachable str lowFirst w3"
    using s1 s2 w3(1) by (blast intro: reachable.step)
  then have seams: "seams_ok w3" using reachable_seams by blast
  from seams have sm: "chunkHeights w3 (x, 0) = Some c \<Longrightarrow> chunkHeights w3 (x + 1, 0) = Some d
      \<Longrightarrow> extractLeft d = extractRight c" for x c d
    unfolding seams_ok_def by blast
  from sm [of "- 2" ?z b] cz cb have "extractLeft b = extractRight ?z" by simp
  then have lb: "extractLeft b = replicate 33 (Some 0)"
    by (simp add: extractRight_def elem_def)
  from sm [of "- 1" b a] cb ca have ab: "extractLeft a = extractRight b" by simp
  have la: "length a = 33" using grid_length [OF A(3)] by simp
  then have "extractRight a ! 0 = cellAt a (0, 0)"
    by (simp add: extractRight_def cellAt_def)
  with A(4) have "extractRight a ! 0 \<noteq> Some 0" by (auto simp: neg_iff)
  then have "extractRight a \<noteq> extractLeft b" unfolding lb by auto
  with run rc cb ca ab show "\<exists>w a b. threeChunks str = Inr w \<and> reachable str lowFirst w \<and>
     chunkHeights w (- 1, 0) = Some b \<and> chunkHeights w (0, 0) = Some a \<and>
     extractRight a \<noteq> extractLeft b \<and> extractLeft a = extractRight b"
    by blast
qed

end
